theory Spec2Isabelle
  imports Complex_Main "HOL-Library.Word" "HOL-Library.Char_ord"
begin

unbundle bit_operations_syntax

section \<open>Constants of the sketch\<close>

type_synonym byte = "8 word"

definition GPSBUFR1 :: nat where
  "GPSBUFR1 = 512"

definition NMEAMAXLEN :: nat where
  "NMEAMAXLEN = 79"

definition GPSLOST :: "32 word" where
  "GPSLOST = 2000"

abbreviation NUL :: char where
  "NUL \<equiv> CHR 0x00"

abbreviation CR :: char where
  "CR \<equiv> CHR 0x0D"

abbreviation LF :: char where
  "LF \<equiv> CHR 0x0A"

section \<open>C strings inside a character array\<close>

text \<open>
  A character array is a list, a pointer into it an offset. The string a pointer
  denotes runs from the offset up to the first NUL. The framer stores a NUL inside
  the array before any string function runs, so a scan ends inside the array; the
  model's scans also end where the array ends. A read at a fixed offset
  (\<open>pointer[k]\<close>) can lie beyond the 80 bytes of \<open>sentence\<close>: it then yields the byte
  that follows the array in memory, which the program does not determine and the
  model takes as the parameter \<open>past\<close>.
\<close>

definition cstr :: "char list \<Rightarrow> nat \<Rightarrow> string" where
  "cstr buf p = takeWhile (\<lambda>c. c \<noteq> NUL) (drop p buf)"

definition strlen :: "char list \<Rightarrow> nat \<Rightarrow> nat" where
  "strlen buf p = length (cstr buf p)"

text \<open>\<open>strchr\<close> for a character other than NUL: the offset of its first occurrence, or NULL.\<close>

definition strchr :: "char list \<Rightarrow> nat \<Rightarrow> char \<Rightarrow> nat option" where
  "strchr buf p ch =
     (if ch \<in> set (cstr buf p)
      then Some (p + length (takeWhile (\<lambda>c. c \<noteq> ch) (cstr buf p)))
      else None)"

definition peek :: "(nat \<Rightarrow> char) \<Rightarrow> char list \<Rightarrow> nat \<Rightarrow> char" where
  "peek past buf i = (if i < length buf then buf ! i else past (i - length buf))"

text \<open>
  \<open>strtok(_, "*")\<close> with its saved position made explicit: skip the delimiters at the
  saved position; at the end of the string there is no token (NULL); otherwise the
  token runs to the next delimiter, which is overwritten by NUL, or to the end of the
  string. The result is the array, the token's offset and the new saved position.
\<close>

definition strtok :: "char list \<Rightarrow> nat \<Rightarrow> (char list \<times> nat \<times> nat) option" where
  "strtok buf save =
     (let start = save + length (takeWhile (\<lambda>c. c = CHR ''*'') (cstr buf save));
          tok = takeWhile (\<lambda>c. c \<noteq> CHR ''*'') (cstr buf start);
          stop = start + length tok
      in if tok = [] then None
         else if stop < length buf \<and> buf ! stop = CHR ''*''
              then Some (buf[stop := NUL], start, stop + 1)
              else Some (buf, start, stop))"

section \<open>Character conversions\<close>

definition toupper :: "char \<Rightarrow> char" where
  "toupper c = (if CHR ''a'' \<le> c \<and> c \<le> CHR ''z'' then char_of (of_char c - (32::nat)) else c)"

text \<open>Convert a hex digit to an integer.\<close>

definition htoi :: "char \<Rightarrow> byte" where
  "htoi d =
     (let digit = toupper d
      in if CHR ''0'' \<le> digit \<and> digit \<le> CHR ''9'' then of_char digit - of_char CHR ''0''
         else if CHR ''A'' \<le> digit \<and> digit \<le> CHR ''F'' then of_char digit - of_char CHR ''A'' + 10
         else 0)"

text \<open>Convert a decimal digit to an integer.\<close>

definition dtoi :: "char \<Rightarrow> byte" where
  "dtoi digit =
     (if CHR ''0'' \<le> digit \<and> digit \<le> CHR ''9'' then of_char digit - of_char CHR ''0''
      else 0)"

text \<open>
  The C library's \<open>atoi\<close> and \<open>atof\<close>, which the sketch calls: white space is skipped,
  then an optional sign and the longest run of decimal digits are read (\<open>atof\<close>: with
  an optional fraction). The value is exact here: a result outside \<open>int\<close> is undefined
  in C, \<open>double\<close> rounding is not modelled, and neither are exponents, hexadecimal
  notation, infinities or NaN.
\<close>

definition isspace :: "char \<Rightarrow> bool" where
  "isspace c = (c = CHR '' '' \<or> (CHR 0x09 \<le> c \<and> c \<le> CHR 0x0D))"

definition isdigit :: "char \<Rightarrow> bool" where
  "isdigit c = (CHR ''0'' \<le> c \<and> c \<le> CHR ''9'')"

fun digits_value :: "string \<Rightarrow> int \<Rightarrow> int" where
  "digits_value [] acc = acc"
| "digits_value (c # cs) acc =
     (if isdigit c then digits_value cs (acc * 10 + (of_char c - of_char CHR ''0'')) else acc)"

definition atoi :: "string \<Rightarrow> int" where
  "atoi str =
     (case dropWhile isspace str of
        [] \<Rightarrow> 0
      | c # cs \<Rightarrow>
          if c = CHR ''-'' then - digits_value cs 0
          else if c = CHR ''+'' then digits_value cs 0
          else digits_value (c # cs) 0)"

fun fraction_value :: "string \<Rightarrow> rat \<Rightarrow> rat" where
  "fraction_value [] scale = 0"
| "fraction_value (c # cs) scale =
     (if isdigit c
      then of_int (of_char c - of_char CHR ''0'') * scale + fraction_value cs (scale / 10)
      else 0)"

definition unsigned_decimal :: "string \<Rightarrow> rat" where
  "unsigned_decimal str =
     of_int (digits_value str 0) +
     (case dropWhile isdigit str of
        [] \<Rightarrow> 0
      | c # cs \<Rightarrow> if c = CHR ''.'' then fraction_value cs (1 / 10) else 0)"

definition atof :: "string \<Rightarrow> rat" where
  "atof str =
     (case dropWhile isspace str of
        [] \<Rightarrow> 0
      | c # cs \<Rightarrow>
          if c = CHR ''-'' then - unsigned_decimal cs
          else if c = CHR ''+'' then unsigned_decimal cs
          else unsigned_decimal (c # cs))"

section \<open>The globals of the sketch\<close>

text \<open>
  Lines written to the serial console. The renderers \<open>showGPSDateTime\<close> and
  \<open>displayGPSDateTime\<close>, the heartbeat LED and the OLED are left out: they read the
  globals below and write none of them.
\<close>

datatype serial_msg =
    BufferOverflowMsg
  | CRCErrorCount "32 word"
  | NoGPSData

record gps_state =
  gpsDataBuffer :: "char list"
  bufferHead :: nat
  bufferTail :: nat
  bufferOverflow :: bool
  sentence :: "char list"
  dataStart :: bool
  dataStop :: bool
  dataCounter :: byte
  gpsValid :: bool
  gpsDateD :: byte
  gpsDateM :: byte
  gpsDateY :: byte
  gpsTimeH :: byte
  gpsTimeM :: byte
  gpsTimeS :: byte
  gpsLatD :: rat
  gpsLongD :: rat
  gpsSats :: byte
  checksumErrors :: "32 word"
  lastFixMillis :: "32 word"
  signalWarning :: bool
  serial :: "serial_msg list"

text \<open>The Fix of the specification: the ten globals the field parser fills.\<close>

definition Fix :: "gps_state \<Rightarrow> (byte \<times> byte \<times> byte) \<times> (byte \<times> byte \<times> byte) \<times> rat \<times> rat \<times> bool \<times> byte" where
  "Fix s = ((gpsTimeH s, gpsTimeM s, gpsTimeS s), (gpsDateD s, gpsDateM s, gpsDateY s),
            gpsLatD s, gpsLongD s, gpsValid s, gpsSats s)"

section \<open>The interrupt service routine\<close>

text \<open>One turn of the ISR's loop, for the byte \<open>Serial1.read()\<close> returns.\<close>

definition isr_byte :: "char \<Rightarrow> gps_state \<Rightarrow> gps_state" where
  "isr_byte c s =
     (let newBufferHead = (bufferHead s + 1) mod GPSBUFR1
      in if newBufferHead = bufferTail s
         then s\<lparr>bufferOverflow := True\<rparr>
         else s\<lparr>gpsDataBuffer := (gpsDataBuffer s)[bufferHead s := c],
                bufferHead := newBufferHead\<rparr>)"

text \<open>The ISR drains the bytes the UART holds at the tick.\<close>

definition gpsDataReadISR :: "char list \<Rightarrow> gps_state \<Rightarrow> gps_state" where
  "gpsDataReadISR available s = fold isr_byte available s"

section \<open>getSentence: framing\<close>

text \<open>
  The two statements by which the consumer takes one byte from the ring:
  \<open>character = gpsDataBuffer[bufferTail]\<close> and \<open>bufferTail = (bufferTail + 1) % GPSBUFR1\<close>.
\<close>

definition ring_read :: "gps_state \<Rightarrow> char" where
  "ring_read s = gpsDataBuffer s ! bufferTail s"

definition ring_advance :: "gps_state \<Rightarrow> gps_state" where
  "ring_advance s = s\<lparr>bufferTail := (bufferTail s + 1) mod GPSBUFR1\<rparr>"

text \<open>
  The while loop of \<open>getSentence\<close>. It need not end when the indices are not those of
  the ring (a snapshot of 512 or more is never met), so its result is an option.
\<close>

partial_function (option) drain :: "nat \<Rightarrow> gps_state \<Rightarrow> gps_state option" where
  "drain bufferHeadCopy s =
     (if bufferTail s \<noteq> bufferHeadCopy then
        (let character = ring_read s;
             s1 = ring_advance s
         in if character = CHR ''$'' then
              drain bufferHeadCopy (s1\<lparr>dataStart := True, dataStop := False, dataCounter := 0\<rparr>)
            else if dataStart s1 then
              (if character = CR \<or> character = LF \<or> dataCounter s1 = of_nat NMEAMAXLEN then
                 Some (s1\<lparr>dataStop := True,
                           sentence := (sentence s1)[unat (dataCounter s1) := NUL]\<rparr>)
               else
                 drain bufferHeadCopy
                   (s1\<lparr>sentence := (sentence s1)[unat (dataCounter s1) := character],
                       dataCounter := dataCounter s1 + 1\<rparr>))
            else drain bufferHeadCopy s1)
      else Some s)"

declare drain.simps [code]

section \<open>getSentence: checksum validation\<close>

text \<open>The loop that folds the payload's bytes with XOR, from offset \<open>nmeaData\<close> to the NUL.\<close>

definition ckSumCalc :: "char list \<Rightarrow> nat \<Rightarrow> byte" where
  "ckSumCalc buf nmeaData = fold (\<lambda>c acc. acc XOR of_char c) (cstr buf nmeaData) 0"

text \<open>
  The transmitted checksum, \<open>(htoi(nmeaCkSum[0]) << 4) + htoi(nmeaCkSum[1])\<close>; it is
  computed only for a checksum string of two or more characters, so both reads lie
  inside the array.
\<close>

definition ckSumComp :: "char list \<Rightarrow> nat \<Rightarrow> byte" where
  "ckSumComp buf nmeaCkSum = push_bit 4 (htoi (buf ! nmeaCkSum)) + htoi (buf ! (nmeaCkSum + 1))"

text \<open>
  The part of \<open>getSentence\<close> after the loop; \<open>now\<close> is what \<open>millis()\<close> returns. The
  result is \<open>dataValid\<close> and the state.
\<close>

definition validate :: "32 word \<Rightarrow> gps_state \<Rightarrow> bool \<times> gps_state" where
  "validate now s =
     (if dataStart s \<and> dataStop s then
        (let (dataValid, s1) =
               (case strtok (sentence s) 0 of
                  None \<Rightarrow> (False, s)
                | Some (buf1, nmeaData, save) \<Rightarrow>
                    (case strtok buf1 save of
                       None \<Rightarrow> (False, s\<lparr>sentence := buf1\<rparr>)
                     | Some (buf2, nmeaCkSum, _) \<Rightarrow>
                         if 2 \<le> strlen buf2 nmeaCkSum then
                           (if ckSumCalc buf2 nmeaData = ckSumComp buf2 nmeaCkSum
                            then (True, s\<lparr>sentence := buf2, lastFixMillis := now\<rparr>)
                            else (False, s\<lparr>sentence := buf2,
                                           checksumErrors := checksumErrors s + 1,
                                           serial := serial s @ [CRCErrorCount (checksumErrors s + 1)]\<rparr>))
                         else (False, s\<lparr>sentence := buf2\<rparr>)))
         in (dataValid, s1\<lparr>dataStart := False, dataStop := False, dataCounter := 0\<rparr>))
      else (False, s))"

definition getSentence :: "32 word \<Rightarrow> gps_state \<Rightarrow> (bool \<times> gps_state) option" where
  "getSentence now s =
     (case drain (bufferHead s) s of
        None \<Rightarrow> None
      | Some s1 \<Rightarrow> Some (validate now s1))"

section \<open>parseSentence\<close>

text \<open>What the body of the GPRMC loop does with a field that is not empty.\<close>

definition rmc_field :: "(nat \<Rightarrow> char) \<Rightarrow> byte \<Rightarrow> nat \<Rightarrow> gps_state \<Rightarrow> gps_state" where
  "rmc_field past fieldCounter pointer s =
     (let dig = (\<lambda>k. dtoi (peek past (sentence s) (pointer + k)));
          s = (if fieldCounter = 1
               then s\<lparr>gpsTimeH := dig 0 * 10 + dig 1,
                      gpsTimeM := dig 2 * 10 + dig 3,
                      gpsTimeS := dig 4 * 10 + dig 5\<rparr>
               else s);
          s = (if fieldCounter = 2
               then s\<lparr>gpsValid := (cstr (sentence s) pointer = ''A'')\<rparr>
               else s);
          s = (if fieldCounter = 3
               then s\<lparr>gpsLatD := of_int (uint (dig 0) * 10 + uint (dig 1))
                                   + atof (cstr (sentence s) (pointer + 2)) / 60\<rparr>
               else s);
          s = (if fieldCounter = 4 \<and> cstr (sentence s) pointer = ''S''
               then s\<lparr>gpsLatD := - gpsLatD s\<rparr>
               else s);
          s = (if fieldCounter = 5
               then s\<lparr>gpsLongD := of_int (uint (dig 0) * 100 + uint (dig 1) * 10 + uint (dig 2))
                                    + atof (cstr (sentence s) (pointer + 3)) / 60\<rparr>
               else s);
          s = (if fieldCounter = 6 \<and> cstr (sentence s) pointer = ''W''
               then s\<lparr>gpsLongD := - gpsLongD s\<rparr>
               else s);
          s = (if fieldCounter = 9
               then s\<lparr>gpsDateD := dig 0 * 10 + dig 1,
                      gpsDateM := dig 2 * 10 + dig 3,
                      gpsDateY := dig 4 * 10 + dig 5\<rparr>
               else s)
      in s)"

text \<open>\<open>*nmeaPart = '\0'\<close> when \<open>nmeaPart\<close> is not NULL.\<close>

definition cut :: "nat option \<Rightarrow> gps_state \<Rightarrow> gps_state" where
  "cut nmeaPart s =
     (case nmeaPart of
        None \<Rightarrow> s
      | Some q \<Rightarrow> s\<lparr>sentence := (sentence s)[q := NUL]\<rparr>)"

lemma strchr_hit:
  assumes "strchr buf p ch = Some q"
  shows "q < length buf \<and> buf ! q = ch \<and> p \<le> q"
proof -
  let ?s = "cstr buf p"
  let ?n = "length (takeWhile (\<lambda>c. c \<noteq> ch) ?s)"
  from assms have mem: "ch \<in> set ?s" and q: "q = p + ?n"
    by (auto simp: strchr_def split: if_splits)
  have "takeWhile (\<lambda>c. c \<noteq> ch) ?s \<noteq> ?s"
    using mem by auto
  then have "?n \<noteq> length ?s"
    by (metis takeWhile_eq_take take_all order_refl)
  with length_takeWhile_le [of "\<lambda>c. c \<noteq> ch" ?s] have n: "?n < length ?s"
    by arith
  have hit: "?s ! ?n = ch"
    using nth_length_takeWhile [OF n] by simp
  have pre: "?s = take (length ?s) (drop p buf)"
    unfolding cstr_def by (rule takeWhile_eq_take)
  have len: "length ?s \<le> length buf - p"
    unfolding cstr_def by (rule order_trans [OF length_takeWhile_le]) simp
  from n len have lt: "p + ?n < length buf" by arith
  have "?s ! ?n = drop p buf ! ?n"
    by (subst pre) (simp add: n)
  also have "\<dots> = buf ! (p + ?n)"
    using lt by simp
  finally show ?thesis using hit lt q by simp
qed

lemma count_list_update_less:
  assumes "q < length xs" "xs ! q = a" "b \<noteq> a"
  shows "count_list (xs[q := b]) a < count_list xs a"
  using assms
proof (induction xs arbitrary: q)
  case Nil
  then show ?case by simp
next
  case (Cons x xs)
  then show ?case by (cases q) auto
qed

text \<open>
  The do-while loop of the GPRMC case; \<open>fieldCounter\<close> and \<open>pointer\<close> are its
  variables on entry to the body. The pointer moves on only inside the test for a
  field that is not empty.
\<close>

function rmc_loop :: "(nat \<Rightarrow> char) \<Rightarrow> byte \<Rightarrow> nat \<Rightarrow> gps_state \<Rightarrow> gps_state" where
  "rmc_loop past fieldCounter pointer s =
     (let fieldCounter = fieldCounter + 1;
          nmeaPart = strchr (sentence s) pointer CHR '','';
          s1 = cut nmeaPart s;
          s2 = (if 0 < strlen (sentence s1) pointer
                then rmc_field past fieldCounter pointer s1 else s1);
          pointer = (if 0 < strlen (sentence s1) pointer
                     then (case nmeaPart of Some q \<Rightarrow> q + 1 | None \<Rightarrow> pointer)
                     else pointer)
      in if nmeaPart \<noteq> None then rmc_loop past fieldCounter pointer s2 else s2)"
  by pat_completeness auto

lemma sentence_rmc_field [simp]: "sentence (rmc_field past fc p s) = sentence s"
  by (simp add: rmc_field_def Let_def)

termination rmc_loop
proof (relation "measure (\<lambda>(past, fc, p, s). count_list (sentence s) CHR '','')")
  show "wf (measure (\<lambda>(past, fc, p, s). count_list (sentence s) CHR '',''))"
    by simp
next
  fix past :: "nat \<Rightarrow> char" and fieldCounter :: byte and pointer :: nat and s :: gps_state
    and fc' :: byte and nmeaPart :: "nat option" and s1 s2 :: gps_state and pointer' :: nat
  assume part: "nmeaPart = strchr (sentence s) pointer CHR '',''"
    and s1: "s1 = cut nmeaPart s"
    and s2: "s2 = (if 0 < strlen (sentence s1) pointer
                   then rmc_field past fc' pointer s1 else s1)"
    and more: "nmeaPart \<noteq> None"
  from more obtain q where q: "nmeaPart = Some q" by auto
  with part have "q < length (sentence s) \<and> sentence s ! q = CHR '',''"
    using strchr_hit [of "sentence s" pointer "CHR '',''" q] by simp
  then have "count_list ((sentence s)[q := NUL]) CHR '','' < count_list (sentence s) CHR '',''"
    by (intro count_list_update_less) auto
  moreover have "sentence s2 = (sentence s)[q := NUL]"
    using s1 s2 q by (simp add: cut_def)
  ultimately show "((past, fc', pointer', s2), (past, fieldCounter, pointer, s))
      \<in> measure (\<lambda>(past, fc, p, s). count_list (sentence s) CHR '','')"
    by simp
qed

text \<open>What the body of the GPGGA loop does with the field at the pointer.\<close>

definition gga_field :: "byte \<Rightarrow> nat \<Rightarrow> gps_state \<Rightarrow> gps_state" where
  "gga_field fieldCounter pointer s =
     (if fieldCounter = 7 \<and> 0 < strlen (sentence s) pointer
      then s\<lparr>gpsSats := (if gpsValid s then word_of_int (atoi (cstr (sentence s) pointer)) else 0)\<rparr>
      else s)"

lemma sentence_gga_field [simp]: "sentence (gga_field fc p s) = sentence s"
  by (simp add: gga_field_def)

text \<open>
  The do-while loop of the GPGGA case. Here the pointer moves on after every field
  that a comma ends, empty or not.
\<close>

function gga_loop :: "byte \<Rightarrow> nat \<Rightarrow> gps_state \<Rightarrow> gps_state" where
  "gga_loop fieldCounter pointer s =
     (let fieldCounter = fieldCounter + 1;
          nmeaPart = strchr (sentence s) pointer CHR '','';
          s1 = cut nmeaPart s;
          s2 = gga_field fieldCounter pointer s1;
          pointer = (case nmeaPart of Some q \<Rightarrow> q + 1 | None \<Rightarrow> pointer)
      in if nmeaPart \<noteq> None then gga_loop fieldCounter pointer s2 else s2)"
  by pat_completeness auto

termination gga_loop
proof (relation "measure (\<lambda>(fc, p, s). count_list (sentence s) CHR '','')")
  show "wf (measure (\<lambda>(fc, p, s). count_list (sentence s) CHR '',''))"
    by simp
next
  fix fieldCounter :: byte and pointer :: nat and s :: gps_state
    and fc' :: byte and nmeaPart :: "nat option" and s1 s2 :: gps_state and pointer' :: nat
  assume part: "nmeaPart = strchr (sentence s) pointer CHR '',''"
    and s1: "s1 = cut nmeaPart s"
    and s2: "s2 = gga_field fc' pointer s1"
    and more: "nmeaPart \<noteq> None"
  from more obtain q where q: "nmeaPart = Some q" by auto
  with part have "q < length (sentence s) \<and> sentence s ! q = CHR '',''"
    using strchr_hit [of "sentence s" pointer "CHR '',''" q] by simp
  then have "count_list ((sentence s)[q := NUL]) CHR '','' < count_list (sentence s) CHR '',''"
    by (intro count_list_update_less) auto
  moreover have "sentence s2 = (sentence s)[q := NUL]"
    using s1 s2 q by (simp add: cut_def)
  ultimately show "((fc', pointer', s2), (fieldCounter, pointer, s))
      \<in> measure (\<lambda>(fc, p, s). count_list (sentence s) CHR '','')"
    by simp
qed

declare rmc_loop.simps [simp del] gga_loop.simps [simp del]

text \<open>
  \<open>parseSentence\<close>: the type is the string before the first comma of \<open>sentence\<close>; the
  fields start after that comma.
\<close>

definition parseSentence :: "(nat \<Rightarrow> char) \<Rightarrow> gps_state \<Rightarrow> gps_state" where
  "parseSentence past s =
     (case strchr (sentence s) 0 CHR '','' of
        None \<Rightarrow> s
      | Some nmeaPart \<Rightarrow>
          (let s1 = cut (Some nmeaPart) s
           in if cstr (sentence s1) 0 = ''GPRMC'' then rmc_loop past 0 (nmeaPart + 1) s1
              else if cstr (sentence s1) 0 = ''GPGGA'' then gga_loop 0 (nmeaPart + 1) s1
              else s1))"

section \<open>loop: the timezone calculation\<close>

text \<open>
  The table of \<open>loop\<close>. An index of 13 or more reads behind the table; what is stored
  there is the parameter \<open>behind\<close>.
\<close>

definition daysInMonth :: "byte list" where
  "daysInMonth = [0, 31, 28, 31, 30, 31, 30, 31, 31, 30, 31, 30, 31]"

definition daysInMonth_at :: "(nat \<Rightarrow> byte) \<Rightarrow> int \<Rightarrow> byte" where
  "daysInMonth_at behind m =
     (if nat m < length daysInMonth then daysInMonth ! nat m
      else behind (nat m - length daysInMonth))"

text \<open>
  The block of \<open>loop\<close> between \<open>parseSentence()\<close> and the output calls. \<open>TZOFFSET\<close> is
  the macro of that name; the arithmetic is on \<open>int\<close>, where no value of the block
  comes near the limits of the type. The year is never negative when the leap test
  reads it, so C's \<open>%\<close> is \<open>mod\<close>.
\<close>

definition timezone :: "int \<Rightarrow> (nat \<Rightarrow> byte) \<Rightarrow> gps_state \<Rightarrow> gps_state" where
  "timezone TZOFFSET behind s =
     (let h = uint (gpsTimeH s) + TZOFFSET;
          d = uint (gpsDateD s);
          m = uint (gpsDateM s);
          y = uint (gpsDateY s);
          (h, d) = (if 24 \<le> h then (h - 24, d + 1)
                    else if h < 0 then (h + 24, d - 1)
                    else (h, d));
          isLeap = (y mod 4 = 0);
          (d, m, y) =
            (if 0 < d then
               (let maxDays = (if m = 2 \<and> isLeap then 29 else daysInMonth_at behind m)
                in if uint maxDays < d then
                     (let d = 1; m = m + 1
                      in if 12 < m then
                           (let m = 1; y = y + 1
                            in if 99 < y then (d, m, 0) else (d, m, y))
                         else (d, m, y))
                   else (d, m, y))
             else
               (let m = m - 1;
                    (m, y) = (if m < 1 then
                                (let m = 12; y = y - 1
                                 in if y < 0 then (m, 99) else (m, y))
                              else (m, y));
                    d = uint (if m = 2 \<and> isLeap then 29 else daysInMonth_at behind m)
                in (d, m, y)))
      in s\<lparr>gpsTimeH := word_of_int h,
            gpsDateD := word_of_int d,
            gpsDateM := word_of_int m,
            gpsDateY := word_of_int y\<rparr>)"

section \<open>loop\<close>

text \<open>
  One pass of \<open>loop\<close>. \<open>millis()\<close> is read in \<open>getSentence\<close> (\<open>now\<close>) and again in the
  test for a lost data stream (\<open>later\<close>).
\<close>

definition check_overflow :: "gps_state \<Rightarrow> gps_state" where
  "check_overflow s =
     (if bufferOverflow s
      then s\<lparr>bufferOverflow := False, serial := serial s @ [BufferOverflowMsg]\<rparr>
      else s)"

definition check_lost :: "32 word \<Rightarrow> gps_state \<Rightarrow> gps_state" where
  "check_lost later s =
     (if GPSLOST < later - lastFixMillis s
      then s\<lparr>signalWarning := True,
             serial := (if signalWarning s then serial s else serial s @ [NoGPSData])\<rparr>
      else s\<lparr>signalWarning := False\<rparr>)"

definition loop :: "int \<Rightarrow> (nat \<Rightarrow> char) \<Rightarrow> (nat \<Rightarrow> byte) \<Rightarrow> 32 word \<Rightarrow> 32 word \<Rightarrow> gps_state \<Rightarrow> gps_state option" where
  "loop TZOFFSET past behind now later s =
     (case getSentence now (check_overflow s) of
        None \<Rightarrow> None
      | Some (True, s1) \<Rightarrow> Some (check_lost later (timezone TZOFFSET behind (parseSentence past s1)))
      | Some (False, s1) \<Rightarrow> Some (check_lost later s1))"

section \<open>The state at power-on\<close>

text \<open>C sets every global without an initialiser to zero.\<close>

definition power_on :: gps_state where
  "power_on =
     \<lparr>gpsDataBuffer = replicate GPSBUFR1 NUL, bufferHead = 0, bufferTail = 0,
      bufferOverflow = False, sentence = replicate (NMEAMAXLEN + 1) NUL,
      dataStart = False, dataStop = False, dataCounter = 0, gpsValid = False,
      gpsDateD = 0, gpsDateM = 0, gpsDateY = 0, gpsTimeH = 0, gpsTimeM = 0, gpsTimeS = 0,
      gpsLatD = 0, gpsLongD = 0, gpsSats = 0, checksumErrors = 0, lastFixMillis = 0,
      signalWarning = False, serial = []\<rparr>"

section \<open>The calendar of the specification\<close>

text \<open>
  The calendar as the specification words it, for two-digit years: February has 29
  days exactly when the year is divisible by 4. \<open>next_day\<close> steps a date forward (a
  day past the month's end resets to 1 with the month after; a month past 12 resets
  to 1 with the year after; a year past 99 wraps to 0), \<open>prev_day\<close> steps it back.
\<close>

definition month_days :: "int \<Rightarrow> int \<Rightarrow> int" where
  "month_days y m =
     (if m = 2 then (if y mod 4 = 0 then 29 else 28)
      else if m = 4 \<or> m = 6 \<or> m = 9 \<or> m = 11 then 30
      else 31)"

definition valid_date :: "int \<Rightarrow> int \<Rightarrow> int \<Rightarrow> bool" where
  "valid_date d m y = (1 \<le> m \<and> m \<le> 12 \<and> 0 \<le> y \<and> y \<le> 99 \<and> 1 \<le> d \<and> d \<le> month_days y m)"

definition next_day :: "int \<Rightarrow> int \<Rightarrow> int \<Rightarrow> int \<times> int \<times> int" where
  "next_day d m y =
     (if d + 1 \<le> month_days y m then (d + 1, m, y)
      else if m + 1 \<le> 12 then (1, m + 1, y)
      else if y + 1 \<le> 99 then (1, 1, y + 1)
      else (1, 1, 0))"

definition prev_day :: "int \<Rightarrow> int \<Rightarrow> int \<Rightarrow> int \<times> int \<times> int" where
  "prev_day d m y =
     (if 1 \<le> d - 1 then (d - 1, m, y)
      else if 1 \<le> m - 1 then (month_days y (m - 1), m - 1, y)
      else if 0 \<le> y - 1 then (31, 12, y - 1)
      else (31, 12, 99))"

section \<open>The checksum of the specification\<close>

text \<open>
  The wire format as the specification words it: the checksum is the XOR of the
  payload's bytes, sent as two hexadecimal digits after the star. \<open>encode_hex2\<close>
  writes a byte as two digits, in upper or in lower case; \<open>hex_value\<close> is the value
  of a hexadecimal digit of either case; \<open>payload_text\<close> is the text before the first
  star of a record and \<open>checksum_text\<close> the text after it.
\<close>

definition xor_bytes :: "string \<Rightarrow> byte" where
  "xor_bytes str = fold (\<lambda>c acc. acc XOR of_char c) str 0"

definition decode_hex2 :: "char \<Rightarrow> char \<Rightarrow> byte" where
  "decode_hex2 c1 c2 = push_bit 4 (htoi c1) + htoi c2"

definition hex_digit :: "bool \<Rightarrow> byte \<Rightarrow> char" where
  "hex_digit upper n =
     (if n < 10 then char_of (unat n + 48)
      else if upper then char_of (unat n + 55)
      else char_of (unat n + 87))"

definition encode_hex2 :: "bool \<Rightarrow> byte \<Rightarrow> string" where
  "encode_hex2 upper b = [hex_digit upper (drop_bit 4 b), hex_digit upper (b AND 15)]"

definition hex_value :: "char \<Rightarrow> byte option" where
  "hex_value c =
     (if CHR ''0'' \<le> c \<and> c \<le> CHR ''9'' then Some (of_char c - 48)
      else if CHR ''A'' \<le> c \<and> c \<le> CHR ''F'' then Some (of_char c - 55)
      else if CHR ''a'' \<le> c \<and> c \<le> CHR ''f'' then Some (of_char c - 87)
      else None)"

text \<open>What a character stands for where a hexadecimal digit is expected: other characters count as zero.\<close>

definition digit_value :: "char \<Rightarrow> byte" where
  "digit_value c = (case hex_value c of Some v \<Rightarrow> v | None \<Rightarrow> 0)"

definition payload_text :: "string \<Rightarrow> string" where
  "payload_text r = takeWhile (\<lambda>c. c \<noteq> CHR ''*'') r"

definition checksum_text :: "string \<Rightarrow> string" where
  "checksum_text r = drop 1 (dropWhile (\<lambda>c. c \<noteq> CHR ''*'') r)"

text \<open>The three assignments that end the validation branch of \<open>getSentence\<close>.\<close>

definition framer_reset :: "gps_state \<Rightarrow> gps_state" where
  "framer_reset s = s\<lparr>dataStart := False, dataStop := False, dataCounter := 0\<rparr>"

section \<open>Predicates for the statements\<close>

text \<open>
  \<open>checksum_mismatch\<close> is the condition under which \<open>getSentence\<close> reaches
  \<open>checksumErrors++\<close>: both tokens are found, the second has two characters or more,
  and the computed checksum differs from the transmitted one. \<open>framer_only\<close> relates
  two states that differ at most in what the framing loop writes.
\<close>

definition checksum_mismatch :: "gps_state \<Rightarrow> bool" where
  "checksum_mismatch s =
     (case strtok (sentence s) 0 of
        None \<Rightarrow> False
      | Some (buf1, nmeaData, save) \<Rightarrow>
          (case strtok buf1 save of
             None \<Rightarrow> False
           | Some (buf2, nmeaCkSum, _) \<Rightarrow>
               2 \<le> strlen buf2 nmeaCkSum \<and> ckSumCalc buf2 nmeaData \<noteq> ckSumComp buf2 nmeaCkSum))"

definition framer_only :: "gps_state \<Rightarrow> gps_state \<Rightarrow> bool" where
  "framer_only s s' =
     (Fix s' = Fix s \<and> checksumErrors s' = checksumErrors s \<and> lastFixMillis s' = lastFixMillis s
      \<and> serial s' = serial s \<and> signalWarning s' = signalWarning s
      \<and> gpsDataBuffer s' = gpsDataBuffer s \<and> bufferHead s' = bufferHead s
      \<and> bufferOverflow s' = bufferOverflow s)"

text \<open>
  The outputs of a GPRMC sentence by the position of the field they are read from: the time from
  field 1, the validity from field 2, the latitude from fields 3 and 4, the longitude from fields
  5 and 6, the date from field 9; no field gives the satellite count. Here \<open>parsed\<close> is a
  set of field positions, and \<open>kept parsed s s'\<close> says that every output read from fields
  outside of it has in \<open>s'\<close> the value it has in \<open>s\<close>.
\<close>

definition kept :: "nat set \<Rightarrow> gps_state \<Rightarrow> gps_state \<Rightarrow> bool" where
  "kept parsed s s' \<longleftrightarrow>
     gpsSats s' = gpsSats s
     \<and> (1 \<notin> parsed \<longrightarrow> (gpsTimeH s', gpsTimeM s', gpsTimeS s') = (gpsTimeH s, gpsTimeM s, gpsTimeS s))
     \<and> (2 \<notin> parsed \<longrightarrow> gpsValid s' = gpsValid s)
     \<and> (3 \<notin> parsed \<and> 4 \<notin> parsed \<longrightarrow> gpsLatD s' = gpsLatD s)
     \<and> (5 \<notin> parsed \<and> 6 \<notin> parsed \<longrightarrow> gpsLongD s' = gpsLongD s)
     \<and> (9 \<notin> parsed \<longrightarrow> (gpsDateD s', gpsDateM s', gpsDateY s') = (gpsDateD s, gpsDateM s, gpsDateY s))"

section \<open>The ring between the ISR and getSentence\<close>

text \<open>
  What the body of the while loop of \<open>getSentence\<close> does with the byte it has taken from the
  ring, as in \<open>drain\<close>; the flag is set where the loop is left by \<open>break\<close>.
\<close>

definition frame :: "char \<Rightarrow> gps_state \<Rightarrow> gps_state \<times> bool" where
  "frame character s1 =
     (if character = CHR ''$'' then
        (s1\<lparr>dataStart := True, dataStop := False, dataCounter := 0\<rparr>, False)
      else if dataStart s1 then
        (if character = CR \<or> character = LF \<or> dataCounter s1 = of_nat NMEAMAXLEN then
           (s1\<lparr>dataStop := True,
               sentence := (sentence s1)[unat (dataCounter s1) := NUL]\<rparr>, True)
         else
           (s1\<lparr>sentence := (sentence s1)[unat (dataCounter s1) := character],
               dataCounter := dataCounter s1 + 1\<rparr>, False))
      else (s1, False))"

text \<open>
  The timer interrupt can come between any two statements of \<open>getSentence\<close>, except inside
  the snapshot, which is taken with the interrupts off. The places of the consumer where that
  matters: before the snapshot of \<open>bufferHead\<close>, before the test of the while loop, before
  the read of \<open>gpsDataBuffer[bufferTail]\<close>, before the assignment to \<open>bufferTail\<close> (the
  framing that follows touches no variable of the ISR), and after the loop, before the
  validation. The locals \<open>bufferHeadCopy\<close> and \<open>character\<close> are assigned before they are
  read; \<open>observed\<close> is the history of the bytes read from the ring.
\<close>

datatype pc = AtSnapshot | AtTest | AtRead | AtAdvance | AtValidate

record system =
  globals :: gps_state
  pc :: pc
  bufferHeadCopy :: nat
  character :: char
  observed :: "char list"

definition main_step :: "32 word \<Rightarrow> system \<Rightarrow> system" where
  "main_step now sys =
     (case pc sys of
        AtSnapshot \<Rightarrow> sys\<lparr>bufferHeadCopy := bufferHead (globals sys), pc := AtTest\<rparr>
      | AtTest \<Rightarrow>
          sys\<lparr>pc := (if bufferTail (globals sys) \<noteq> bufferHeadCopy sys then AtRead else AtValidate)\<rparr>
      | AtRead \<Rightarrow>
          sys\<lparr>character := ring_read (globals sys),
              observed := observed sys @ [ring_read (globals sys)],
              pc := AtAdvance\<rparr>
      | AtAdvance \<Rightarrow>
          (let (s2, stop) = frame (character sys) (ring_advance (globals sys))
           in sys\<lparr>globals := s2, pc := (if stop then AtValidate else AtTest)\<rparr>)
      | AtValidate \<Rightarrow> sys\<lparr>globals := snd (validate now (globals sys)), pc := AtSnapshot\<rparr>)"

text \<open>
  A schedule is a list of events: a tick of the timer, at which the ISR runs to its end on the
  bytes the UART holds, or the next statement of the consumer, which calls \<open>getSentence\<close>
  again and again (\<open>now\<close> is what \<open>millis()\<close> returns there). The rest of \<open>loop\<close> reads
  and writes neither index nor the ring; it clears \<open>bufferOverflow\<close>, which here stays set
  once the ISR has dropped a byte.
\<close>

datatype event = Tick "char list" | Main "32 word"

definition step :: "event \<Rightarrow> system \<Rightarrow> system" where
  "step e sys =
     (case e of
        Tick available \<Rightarrow> sys\<lparr>globals := gpsDataReadISR available (globals sys)\<rparr>
      | Main now \<Rightarrow> main_step now sys)"

definition run :: "event list \<Rightarrow> system \<Rightarrow> system" where
  "run es sys = fold step es sys"

definition pushes :: "event list \<Rightarrow> char list" where
  "pushes es = concat (map (\<lambda>e. case e of Tick available \<Rightarrow> available | Main _ \<Rightarrow> []) es)"

definition start :: system where
  "start = \<lparr>globals = power_on, pc = AtSnapshot, bufferHeadCopy = 0, character = NUL, observed = []\<rparr>"

text \<open>
  The invariant of the ring, for the bytes \<open>xs\<close> pushed so far: the indices are the counts of
  bytes pushed and of bytes consumed modulo the size, the bytes read are an initial segment of
  \<open>xs\<close>, and the cells from tail to head hold the bytes not yet consumed.
\<close>

definition consumed :: "system \<Rightarrow> nat" where
  "consumed sys = length (observed sys) - (if pc sys = AtAdvance then 1 else 0)"

definition ring_inv :: "char list \<Rightarrow> system \<Rightarrow> bool" where
  "ring_inv xs sys \<longleftrightarrow>
     length (gpsDataBuffer (globals sys)) = GPSBUFR1
     \<and> bufferHead (globals sys) = length xs mod GPSBUFR1
     \<and> bufferTail (globals sys) = consumed sys mod GPSBUFR1
     \<and> length (observed sys) \<le> length xs
     \<and> length xs < consumed sys + GPSBUFR1
     \<and> observed sys = take (length (observed sys)) xs
     \<and> (\<forall>i. consumed sys \<le> i \<and> i < length xs \<longrightarrow> gpsDataBuffer (globals sys) ! (i mod GPSBUFR1) = xs ! i)
     \<and> (pc sys = AtAdvance \<longrightarrow> observed sys \<noteq> [])
     \<and> (pc sys = AtTest \<longrightarrow> (\<exists>H. bufferHeadCopy sys = H mod GPSBUFR1 \<and> consumed sys \<le> H \<and> H \<le> length xs))
     \<and> (pc sys = AtRead \<or> pc sys = AtAdvance \<longrightarrow>
          (\<exists>H. bufferHeadCopy sys = H mod GPSBUFR1 \<and> consumed sys < H \<and> H \<le> length xs))"

text \<open>
  A schedule in which no byte arrives at a full ring. The count is of the schedule and not of
  the indices: \<open>n\<close> bytes have arrived before, the consumer has released \<open>consumed sys\<close>
  of them by moving the tail, and the ring holds \<open>GPSBUFR1 - 1\<close> bytes when it is full. So the
  bytes of a tick all find room when, with them, no more than \<open>GPSBUFR1 - 1\<close> bytes are
  unreleased. A ring that never becomes full is the stronger condition.
\<close>

fun room :: "nat \<Rightarrow> event list \<Rightarrow> system \<Rightarrow> bool" where
  "room n [] sys = True"
| "room n (Tick available # es) sys =
     (n + length available < consumed sys + GPSBUFR1
      \<and> room (n + length available) es (step (Tick available) sys))"
| "room n (Main now # es) sys = room n es (step (Main now) sys)"

text \<open>How many statements of the consumer are between a place and the next read of a byte, at most.\<close>

definition rank :: "system \<Rightarrow> nat" where
  "rank sys =
     (case pc sys of
        AtRead \<Rightarrow> 1
      | AtTest \<Rightarrow> (if bufferTail (globals sys) \<noteq> bufferHeadCopy sys then 2 else 5)
      | AtSnapshot \<Rightarrow> 3
      | AtValidate \<Rightarrow> 4
      | AtAdvance \<Rightarrow> 6)"

definition todo :: "char list \<Rightarrow> system \<Rightarrow> nat" where
  "todo xs sys =
     (if length (observed sys) = length xs then 0
      else 7 * (length xs - length (observed sys)) + rank sys - 6)"

section \<open>The fields of a payload\<close>

text \<open>The text of a run of fields, each one closed by its comma.\<close>

abbreviation fields :: "string list \<Rightarrow> string" where
  "fields fs \<equiv> concat (map (\<lambda>f. f @ '','') fs)"

section \<open>The timezone calculation steps the calendar\<close>

lemma daysInMonth_at_month_days:
  assumes "1 \<le> m" "m \<le> 12" "0 \<le> y"
  shows "uint (if m = 2 \<and> y mod 4 = 0 then 29 else daysInMonth_at behind m) = month_days y m"
proof -
  from assms have "m = 1 \<or> m = 2 \<or> m = 3 \<or> m = 4 \<or> m = 5 \<or> m = 6 \<or> m = 7 \<or> m = 8 \<or> m = 9
      \<or> m = 10 \<or> m = 11 \<or> m = 12"
    by arith
  then show ?thesis
    by (elim disjE) (simp_all add: daysInMonth_at_def daysInMonth_def month_days_def)
qed

lemma month_days_bounds: "28 \<le> month_days y m \<and> month_days y m \<le> 31"
  by (simp add: month_days_def)

lemma month_days_January [simp]: "month_days y 1 = 31"
  by (simp add: month_days_def)

lemma daysInMonth_at_December [simp]: "daysInMonth_at behind 12 = 31"
  by (simp add: daysInMonth_at_def daysInMonth_def)

text \<open>
  Claim C2. When the Fix holds a valid date and an hour of 0 to 23, the offset is of
  magnitude below 24 and hour + offset reaches 24, the block stores hour + offset - 24
  (an hour of 0 to 23 again) and the calendar's next day, which is a valid date; no
  other global changes. The witness holds the two cases the claim singles out:
  23:00 + 2 on 31/12/99 gives 01:00 on 01/01/00, and 23:00 + 1 on 28/02/24 gives
  00:00 on 29/02/24.
\<close>

theorem timezone_forward:
  assumes date: "valid_date (uint (gpsDateD s)) (uint (gpsDateM s)) (uint (gpsDateY s))"
    and hour: "uint (gpsTimeH s) \<le> 23"
    and off: "\<bar>TZOFFSET\<bar> < 24"
    and over: "24 \<le> uint (gpsTimeH s) + TZOFFSET"
  shows "case next_day (uint (gpsDateD s)) (uint (gpsDateM s)) (uint (gpsDateY s)) of
           (d, m, y) \<Rightarrow>
             timezone TZOFFSET behind s =
               s\<lparr>gpsTimeH := word_of_int (uint (gpsTimeH s) + TZOFFSET - 24),
                 gpsDateD := word_of_int d, gpsDateM := word_of_int m, gpsDateY := word_of_int y\<rparr>
             \<and> valid_date d m y
             \<and> 0 \<le> uint (gpsTimeH s) + TZOFFSET - 24 \<and> uint (gpsTimeH s) + TZOFFSET - 24 < 24"
proof -
  let ?d = "uint (gpsDateD s)" and ?m = "uint (gpsDateM s)" and ?y = "uint (gpsDateY s)"
  let ?h = "uint (gpsTimeH s) + TZOFFSET - 24"
  from date have m: "1 \<le> ?m" "?m \<le> 12" and y: "0 \<le> ?y" "?y \<le> 99"
    and d: "1 \<le> ?d" "?d \<le> month_days ?y ?m"
    by (simp_all add: valid_date_def)
  have tab: "uint (if ?m = 2 \<and> ?y mod 4 = 0 then 29 else daysInMonth_at behind ?m) = month_days ?y ?m"
    using m y by (intro daysInMonth_at_month_days) auto
  have h: "0 \<le> ?h \<and> ?h < 24"
    using over hour off by arith
  have pos: "0 < ?d + 1"
    using d by arith
  consider (same) "?d + 1 \<le> month_days ?y ?m"
    | (month) "month_days ?y ?m < ?d + 1" "?m + 1 \<le> 12"
    | (year) "month_days ?y ?m < ?d + 1" "12 < ?m + 1" "?y + 1 \<le> 99"
    | (century) "month_days ?y ?m < ?d + 1" "12 < ?m + 1" "99 < ?y + 1"
    by arith
  then show ?thesis
  proof cases
    case same
    then have c1: "\<not> month_days ?y ?m < ?d + 1" by arith
    have "timezone TZOFFSET behind s = s\<lparr>gpsTimeH := word_of_int ?h, gpsDateD := word_of_int (?d + 1),
              gpsDateM := word_of_int ?m, gpsDateY := word_of_int ?y\<rparr>"
      unfolding timezone_def Let_def
      by (simp only: over pos tab c1 if_True if_False split_conv)
    moreover have "next_day ?d ?m ?y = (?d + 1, ?m, ?y)"
      using same by (simp add: next_day_def)
    moreover have "valid_date (?d + 1) ?m ?y"
      using same m y d by (simp add: valid_date_def)
    ultimately show ?thesis
      using h by simp
  next
    case month
    then have c1: "\<not> 12 < ?m + 1" by arith
    have "timezone TZOFFSET behind s = s\<lparr>gpsTimeH := word_of_int ?h, gpsDateD := word_of_int 1,
                    gpsDateM := word_of_int (?m + 1), gpsDateY := word_of_int ?y\<rparr>"
      unfolding timezone_def Let_def
      by (simp only: over pos tab month(1) c1 if_True if_False split_conv)
    moreover have "next_day ?d ?m ?y = (1, ?m + 1, ?y)"
      using month by (simp add: next_day_def)
    moreover have "valid_date 1 (?m + 1) ?y"
      using month m y month_days_bounds [of ?y "?m + 1"] by (simp add: valid_date_def)
    ultimately show ?thesis
      using h by simp
  next
    case year
    then have c1: "\<not> 99 < ?y + 1" by arith
    have "timezone TZOFFSET behind s = s\<lparr>gpsTimeH := word_of_int ?h, gpsDateD := word_of_int 1,
                          gpsDateM := word_of_int 1, gpsDateY := word_of_int (?y + 1)\<rparr>"
      unfolding timezone_def Let_def
      by (simp only: over pos tab year(1,2) c1 if_True if_False split_conv)
    moreover have "next_day ?d ?m ?y = (1, 1, ?y + 1)"
      using year by (simp add: next_day_def)
    moreover have "valid_date 1 1 (?y + 1)"
      using year y by (simp add: valid_date_def)
    ultimately show ?thesis
      using h by simp
  next
    case century
    have "timezone TZOFFSET behind s = s\<lparr>gpsTimeH := word_of_int ?h, gpsDateD := word_of_int 1,
                          gpsDateM := word_of_int 1, gpsDateY := word_of_int 0\<rparr>"
      unfolding timezone_def Let_def
      by (simp only: over pos tab century if_True if_False split_conv)
    moreover have "next_day ?d ?m ?y = (1, 1, 0)"
      using century by (simp add: next_day_def)
    moreover have "valid_date 1 1 0"
      by (simp add: valid_date_def)
    ultimately show ?thesis
      using h by simp
  qed
qed

theorem timezone_forward_witness:
  "timezone 2 (\<lambda>_. 0) (power_on\<lparr>gpsTimeH := 23, gpsDateD := 31, gpsDateM := 12, gpsDateY := 99\<rparr>)
     = power_on\<lparr>gpsTimeH := 1, gpsDateD := 1, gpsDateM := 1, gpsDateY := 0\<rparr>
   \<and> timezone 1 (\<lambda>_. 0) (power_on\<lparr>gpsTimeH := 23, gpsDateD := 28, gpsDateM := 2, gpsDateY := 24\<rparr>)
     = power_on\<lparr>gpsTimeH := 0, gpsDateD := 29, gpsDateM := 2, gpsDateY := 24\<rparr>
   \<and> valid_date 31 12 99 \<and> valid_date 28 2 24"
  using timezone_forward [of "power_on\<lparr>gpsTimeH := 23, gpsDateD := 31, gpsDateM := 12, gpsDateY := 99\<rparr>" 2 "\<lambda>_. 0"]
    timezone_forward [of "power_on\<lparr>gpsTimeH := 23, gpsDateD := 28, gpsDateM := 2, gpsDateY := 24\<rparr>" 1 "\<lambda>_. 0"]
  by (simp add: valid_date_def next_day_def month_days_def)

text \<open>
  Claim C3. When the Fix holds a valid date and an hour of 0 to 23 and hour + offset
  is negative, the block adds 24 to the hour and stores the calendar's previous day,
  which is a valid date; no other global changes. The hour is stored in a byte: it is
  hour + offset + 24 modulo 256, which is hour + offset + 24 itself for an offset of
  magnitude up to 24. The witness: 00:00 - 5 on 01/01/00 gives 19:00 on 31/12/99, and
  01:00 - 2 on 01/03/24 gives 23:00 on 29/02/24.
\<close>

theorem timezone_backward:
  assumes date: "valid_date (uint (gpsDateD s)) (uint (gpsDateM s)) (uint (gpsDateY s))"
    and hour: "uint (gpsTimeH s) \<le> 23"
    and under: "uint (gpsTimeH s) + TZOFFSET < 0"
  shows "case prev_day (uint (gpsDateD s)) (uint (gpsDateM s)) (uint (gpsDateY s)) of
           (d, m, y) \<Rightarrow>
             timezone TZOFFSET behind s =
               s\<lparr>gpsTimeH := word_of_int (uint (gpsTimeH s) + TZOFFSET + 24),
                 gpsDateD := word_of_int d, gpsDateM := word_of_int m, gpsDateY := word_of_int y\<rparr>
             \<and> valid_date d m y
             \<and> uint (gpsTimeH (timezone TZOFFSET behind s)) = (uint (gpsTimeH s) + TZOFFSET + 24) mod 256"
proof -
  let ?d = "uint (gpsDateD s)" and ?m = "uint (gpsDateM s)" and ?y = "uint (gpsDateY s)"
  let ?h = "uint (gpsTimeH s) + TZOFFSET + 24"
  from date have m: "1 \<le> ?m" "?m \<le> 12" and y: "0 \<le> ?y" "?y \<le> 99"
    and d: "1 \<le> ?d" "?d \<le> month_days ?y ?m"
    by (simp_all add: valid_date_def)
  have tab: "uint (if ?m = 2 \<and> ?y mod 4 = 0 then 29 else daysInMonth_at behind ?m) = month_days ?y ?m"
    using m y by (intro daysInMonth_at_month_days) auto
  have nover: "\<not> 24 \<le> uint (gpsTimeH s) + TZOFFSET"
    using under by arith
  have stored: "uint (word_of_int ?h :: byte) = ?h mod 256"
    unfolding uint_word_of_int by simp
  consider (same) "1 \<le> ?d - 1"
    | (month) "?d = 1" "1 \<le> ?m - 1"
    | (year) "?d = 1" "?m = 1" "0 \<le> ?y - 1"
    | (century) "?d = 1" "?m = 1" "?y = 0"
    using d m y by arith
  then show ?thesis
  proof cases
    case same
    have c1: "0 < ?d - 1" using same by arith
    have c2: "\<not> month_days ?y ?m < ?d - 1" using d by arith
    have "timezone TZOFFSET behind s = s\<lparr>gpsTimeH := word_of_int ?h, gpsDateD := word_of_int (?d - 1),
              gpsDateM := word_of_int ?m, gpsDateY := word_of_int ?y\<rparr>"
      unfolding timezone_def Let_def
      by (simp only: nover under if_True if_False split_conv c1 tab c2)
    moreover have "prev_day ?d ?m ?y = (?d - 1, ?m, ?y)"
      using same by (simp add: prev_day_def)
    moreover have "valid_date (?d - 1) ?m ?y"
      using same m y d by (simp add: valid_date_def)
    ultimately show ?thesis
      using stored by simp
  next
    case month
    have c1: "\<not> 0 < ?d - 1" using month by arith
    have c2: "\<not> ?m - 1 < 1" using month by arith
    have tab': "uint (if ?m - 1 = 2 \<and> ?y mod 4 = 0 then 29 else daysInMonth_at behind (?m - 1)) = month_days ?y (?m - 1)"
      using m y month by (intro daysInMonth_at_month_days) auto
    have "timezone TZOFFSET behind s = s\<lparr>gpsTimeH := word_of_int ?h, gpsDateD := word_of_int (month_days ?y (?m - 1)),
              gpsDateM := word_of_int (?m - 1), gpsDateY := word_of_int ?y\<rparr>"
      unfolding timezone_def Let_def
      by (simp only: nover under if_True if_False split_conv c1 c2 tab')
    moreover have "prev_day ?d ?m ?y = (month_days ?y (?m - 1), ?m - 1, ?y)"
      using month by (simp add: prev_day_def)
    moreover have "valid_date (month_days ?y (?m - 1)) (?m - 1) ?y"
      using month m y month_days_bounds [of ?y "?m - 1"] by (simp add: valid_date_def)
    ultimately show ?thesis
      using stored by simp
  next
    case year
    have c1: "\<not> 0 < ?d - 1" using year by arith
    have c2: "?m - 1 < 1" using year by arith
    have c3: "\<not> ?y - 1 < 0" using year by arith
    have c4: "uint (if (12::int) = 2 \<and> ?y mod 4 = 0 then 29 else daysInMonth_at behind 12) = 31"
      by simp
    have "timezone TZOFFSET behind s = s\<lparr>gpsTimeH := word_of_int ?h, gpsDateD := word_of_int 31,
              gpsDateM := word_of_int 12, gpsDateY := word_of_int (?y - 1)\<rparr>"
      unfolding timezone_def Let_def
      by (simp only: nover under if_True if_False split_conv c1 c2 c3 c4)
    moreover have "prev_day ?d ?m ?y = (31, 12, ?y - 1)"
      using year by (simp add: prev_day_def)
    moreover have "valid_date 31 12 (?y - 1)"
      using year y by (simp add: valid_date_def month_days_def)
    ultimately show ?thesis
      using stored by simp
  next
    case century
    have c1: "\<not> 0 < ?d - 1" using century by arith
    have c2: "?m - 1 < 1" using century by arith
    have c3: "?y - 1 < 0" using century by arith
    have c4: "uint (if (12::int) = 2 \<and> ?y mod 4 = 0 then 29 else daysInMonth_at behind 12) = 31"
      by simp
    have "timezone TZOFFSET behind s = s\<lparr>gpsTimeH := word_of_int ?h, gpsDateD := word_of_int 31,
              gpsDateM := word_of_int 12, gpsDateY := word_of_int 99\<rparr>"
      unfolding timezone_def Let_def
      by (simp only: nover under if_True if_False split_conv c1 c2 c3 c4)
    moreover have "prev_day ?d ?m ?y = (31, 12, 99)"
      using century by (simp add: prev_day_def)
    moreover have "valid_date 31 12 99"
      by (simp add: valid_date_def month_days_def)
    ultimately show ?thesis
      using stored by simp
  qed
qed

theorem timezone_backward_witness:
  "timezone (- 5) (\<lambda>_. 0) (power_on\<lparr>gpsTimeH := 0, gpsDateD := 1, gpsDateM := 1, gpsDateY := 0\<rparr>)
     = power_on\<lparr>gpsTimeH := 19, gpsDateD := 31, gpsDateM := 12, gpsDateY := 99\<rparr>
   \<and> timezone (- 2) (\<lambda>_. 0) (power_on\<lparr>gpsTimeH := 1, gpsDateD := 1, gpsDateM := 3, gpsDateY := 24\<rparr>)
     = power_on\<lparr>gpsTimeH := 23, gpsDateD := 29, gpsDateM := 2, gpsDateY := 24\<rparr>
   \<and> valid_date 1 1 0 \<and> valid_date 1 3 24"
  using timezone_backward [of "power_on\<lparr>gpsTimeH := 0, gpsDateD := 1, gpsDateM := 1, gpsDateY := 0\<rparr>" "- 5" "\<lambda>_. 0"]
    timezone_backward [of "power_on\<lparr>gpsTimeH := 1, gpsDateD := 1, gpsDateM := 3, gpsDateY := 24\<rparr>" "- 2" "\<lambda>_. 0"]
  by (simp add: valid_date_def prev_day_def month_days_def)

section \<open>Strings and tokens\<close>

lemma takeWhile_neq_append:
  "d \<notin> set xs \<Longrightarrow> takeWhile (\<lambda>c. c \<noteq> d) (xs @ ys) = xs @ takeWhile (\<lambda>c. c \<noteq> d) ys"
  by (induction xs) auto

lemma takeWhile_drop_commute:
  "n \<le> length (takeWhile P xs) \<Longrightarrow> takeWhile P (drop n xs) = drop n (takeWhile P xs)"
proof (induction xs arbitrary: n)
  case Nil
  then show ?case by simp
next
  case (Cons x xs)
  then show ?case by (cases n) (auto split: if_splits)
qed

lemma cstr_0: "cstr buf 0 = takeWhile (\<lambda>c. c \<noteq> NUL) buf"
  by (simp add: cstr_def)

lemma cstr_append: "cstr (xs @ ys) (length xs + p) = cstr ys p"
  by (simp add: cstr_def)

lemma cstr_text: "NUL \<notin> set xs \<Longrightarrow> cstr (xs @ NUL # ys) 0 = xs"
  by (simp add: cstr_def takeWhile_neq_append)

lemma cstr_drop: "n \<le> length (cstr buf p) \<Longrightarrow> cstr buf (p + n) = drop n (cstr buf p)"
  unfolding cstr_def
  using takeWhile_drop_commute [of n "\<lambda>c. c \<noteq> NUL" "drop p buf"] by (simp add: add.commute)

text \<open>The character that ends a string inside the array is the NUL.\<close>

lemma cstr_end:
  assumes "p + length (cstr buf p) < length buf"
  shows "buf ! (p + length (cstr buf p)) = NUL"
proof -
  let ?xs = "drop p buf"
  let ?n = "length (takeWhile (\<lambda>c. c \<noteq> NUL) ?xs)"
  from assms have "?n < length ?xs"
    by (simp add: cstr_def)
  then have "\<not> (?xs ! ?n \<noteq> NUL)"
    by (rule nth_length_takeWhile)
  moreover have "?xs ! ?n = buf ! (p + ?n)"
    using assms by (simp add: cstr_def)
  ultimately show ?thesis
    by (simp add: cstr_def)
qed

text \<open>A call of strtok where only stars, or nothing, remain.\<close>

lemma strtok_none:
  assumes "set (cstr buf save) \<subseteq> {CHR ''*''}"
  shows "strtok buf save = None"
proof -
  let ?n = "length (takeWhile (\<lambda>c. c = CHR ''*'') (cstr buf save))"
  have all: "takeWhile (\<lambda>c. c = CHR ''*'') (cstr buf save) = cstr buf save"
    using assms by (auto simp: takeWhile_eq_all_conv)
  have "cstr buf (save + ?n) = drop ?n (cstr buf save)"
    by (rule cstr_drop) (simp add: all)
  then have "cstr buf (save + ?n) = []"
    by (simp add: all)
  then show ?thesis
    by (simp add: strtok_def Let_def)
qed

lemma takeWhile_update_NUL:
  "takeWhile (\<lambda>c. c \<noteq> NUL) (xs[n := NUL]) = take n (takeWhile (\<lambda>c. c \<noteq> NUL) xs)"
proof (induction xs arbitrary: n)
  case Nil
  then show ?case by simp
next
  case (Cons x xs)
  then show ?case by (cases n) auto
qed

lemma cstr_update_after: "p \<le> q \<Longrightarrow> cstr (buf[q := NUL]) p = take (q - p) (cstr buf p)"
  by (simp add: cstr_def drop_update_swap takeWhile_update_NUL)

lemma cstr_update_before: "q < p \<Longrightarrow> cstr (buf[q := x]) p = cstr buf p"
  by (simp add: cstr_def)

text \<open>
  strtok in general: stars are skipped, the token is what follows up to the next star
  or the end, and the byte after the token is NUL afterwards.
\<close>

lemma strtok_some:
  assumes str: "cstr buf save = stars @ tok @ rest"
    and stars: "set stars \<subseteq> {CHR ''*''}"
    and tok: "tok \<noteq> []" "CHR ''*'' \<notin> set tok"
    and rest: "rest = [] \<or> hd rest = CHR ''*''"
  shows "strtok buf save =
           Some (buf[save + length stars + length tok := NUL], save + length stars,
                 save + length stars + length tok + (if rest = [] then 0 else 1))"
proof -
  let ?start = "save + length stars"
  let ?stop = "?start + length tok"
  obtain t ts where t: "tok = t # ts" using tok(1) by (cases tok) auto
  have skip: "takeWhile (\<lambda>c. c = CHR ''*'') (cstr buf save) = stars"
    unfolding str using stars tok(2)
    by (subst takeWhile_append2) (auto simp: t)
  have at_start: "cstr buf ?start = tok @ rest"
    using cstr_drop [of "length stars" buf save] by (simp add: str)
  have token: "takeWhile (\<lambda>c. c \<noteq> CHR ''*'') (cstr buf ?start) = tok"
    unfolding at_start using tok(2) rest
    by (cases rest) (auto simp: takeWhile_neq_append)
  have len: "length (cstr buf save) \<le> length buf - save"
    unfolding cstr_def by (rule order_trans [OF length_takeWhile_le]) simp
  show ?thesis
  proof (cases "rest = []")
    case True
    have "cstr buf ?start = tok" using at_start True by simp
    then have e: "?start + length (cstr buf ?start) = ?stop" by simp
    have "buf[?stop := NUL] = buf"
    proof (cases "?stop < length buf")
      case True
      then show ?thesis using cstr_end [of ?start buf] e by (simp add: list_update_same_conv)
    next
      case False
      then show ?thesis by (simp add: list_update_beyond)
    qed
    moreover have "\<not> (?stop < length buf \<and> buf ! ?stop = CHR ''*'')"
      using cstr_end [of ?start buf] e by auto
    ultimately show ?thesis
      unfolding strtok_def Let_def skip token
      using tok(1) True by simp
  next
    case False
    with rest obtain rs where rs: "rest = CHR ''*'' # rs" by (cases rest) auto
    have "length stars + length tok < length (cstr buf save)"
      by (simp add: str rs)
    with len have lt: "?stop < length buf" by arith
    have "cstr buf save ! (length stars + length tok) = CHR ''*''"
      by (simp add: str rs nth_append)
    moreover have "cstr buf save ! (length stars + length tok) = buf ! ?stop"
    proof -
      have "cstr buf save = take (length (cstr buf save)) (drop save buf)"
        unfolding cstr_def by (rule takeWhile_eq_take)
      then have "cstr buf save ! (length stars + length tok) = drop save buf ! (length stars + length tok)"
        by (metis \<open>length stars + length tok < length (cstr buf save)\<close> nth_take)
      then show ?thesis using lt by (simp add: add.assoc)
    qed
    ultimately have "buf ! ?stop = CHR ''*''" by simp
    then show ?thesis
      unfolding strtok_def Let_def skip token
      using tok(1) False lt by simp
  qed
qed


lemma validate_no_token:
  assumes "dataStart s" "dataStop s" "strtok (sentence s) 0 = None"
  shows "validate now s = (False, framer_reset s)"
  using assms by (simp add: validate_def framer_reset_def)

lemma validate_one_token:
  assumes "dataStart s" "dataStop s" "strtok (sentence s) 0 = Some (buf1, nmeaData, save)"
    and "strtok buf1 save = None"
  shows "validate now s = (False, framer_reset (s\<lparr>sentence := buf1\<rparr>))"
  using assms by (simp add: validate_def framer_reset_def)

lemma validate_two_tokens:
  assumes "dataStart s" "dataStop s" "strtok (sentence s) 0 = Some (buf1, nmeaData, save)"
    and "strtok buf1 save = Some (buf2, nmeaCkSum, save')"
  shows "validate now s =
     (if 2 \<le> strlen buf2 nmeaCkSum then
        (if ckSumCalc buf2 nmeaData = ckSumComp buf2 nmeaCkSum
         then (True, framer_reset (s\<lparr>sentence := buf2, lastFixMillis := now\<rparr>))
         else (False, framer_reset (s\<lparr>sentence := buf2, checksumErrors := checksumErrors s + 1,
                 serial := serial s @ [CRCErrorCount (checksumErrors s + 1)]\<rparr>)))
      else (False, framer_reset (s\<lparr>sentence := buf2\<rparr>)))"
  using assms by (simp add: validate_def framer_reset_def)

text \<open>A record without a star is rejected, and nothing but the framer's flags changes.\<close>

lemma validate_no_star:
  assumes fr: "dataStart s" "dataStop s"
    and buf: "sentence s = r @ NUL # junk" "NUL \<notin> set r"
    and nostar: "CHR ''*'' \<notin> set r"
  shows "validate now s = (False, framer_reset s)"
proof (cases "r = []")
  case True
  then have "cstr (sentence s) 0 = []"
    using buf by (simp add: cstr_def)
  then have "strtok (sentence s) 0 = None"
    by (intro strtok_none) simp
  then show ?thesis
    by (rule validate_no_token [OF fr])
next
  case False
  have c: "cstr (sentence s) 0 = [] @ r @ []"
    using buf by (simp add: cstr_text)
  have "strtok (sentence s) 0 = Some ((sentence s)[0 + length ([]::string) + length r := NUL], 0 + length ([]::string),
      0 + length ([]::string) + length r + (if ([]::string) = [] then 0 else 1))"
    using False nostar by (intro strtok_some [OF c]) auto
  then have one: "strtok (sentence s) 0 = Some (sentence s, 0, length r)"
    using buf by simp
  have "cstr (sentence s) (length r) = []"
    using cstr_append [of r "NUL # junk" 0] buf by (simp add: cstr_def)
  then have "strtok (sentence s) (length r) = None"
    by (intro strtok_none) simp
  from validate_one_token [OF fr one this] show ?thesis
    by (simp add: framer_reset_def)
qed


text \<open>
  A record with fewer than two characters after its first star is rejected; only the
  framer's flags and the record buffer change.
\<close>

lemma validate_short:
  assumes fr: "dataStart s" "dataStop s"
    and buf: "sentence s = pre @ CHR ''*'' # post @ NUL # junk" "NUL \<notin> set pre" "NUL \<notin> set post"
    and pre: "CHR ''*'' \<notin> set pre"
    and short: "length post < 2"
  shows "\<exists>buf'. validate now s = (False, framer_reset (s\<lparr>sentence := buf'\<rparr>))"
proof -
  let ?buf = "sentence s"
  have rec: "cstr ?buf 0 = pre @ CHR ''*'' # post"
    using buf cstr_text [of "pre @ CHR ''*'' # post" junk] by simp
  from short consider (none) "set post \<subseteq> {CHR ''*''}" | (one) c where "post = [c]" "c \<noteq> CHR ''*''"
    by (cases post) auto
  then show ?thesis
  proof cases
    case none
    show ?thesis
    proof (cases "pre = []")
      case True
      then have "set (cstr ?buf 0) \<subseteq> {CHR ''*''}"
        using rec none by auto
      then have "strtok ?buf 0 = None"
        by (rule strtok_none)
      from validate_no_token [OF fr this] have "validate now s = (False, framer_reset (s\<lparr>sentence := ?buf\<rparr>))"
        by simp
      then show ?thesis ..
    next
      case False
      have c: "cstr ?buf 0 = [] @ pre @ (CHR ''*'' # post)"
        using rec by simp
      have "strtok ?buf 0 = Some (?buf[0 + length ([]::string) + length pre := NUL], 0 + length ([]::string),
          0 + length ([]::string) + length pre + (if CHR ''*'' # post = [] then 0 else 1))"
        using False pre by (intro strtok_some [OF c]) auto
      then have one: "strtok ?buf 0 = Some (pre @ NUL # post @ NUL # junk, 0, length pre + 1)"
        using buf by simp
      have "cstr (pre @ NUL # post @ NUL # junk) (length pre + 1) = post"
        using cstr_append [of "pre @ [NUL]" "post @ NUL # junk" 0] buf(3) by (simp add: cstr_text)
      then have "strtok (pre @ NUL # post @ NUL # junk) (length pre + 1) = None"
        using none by (intro strtok_none) simp
      from validate_one_token [OF fr one this] show ?thesis ..
    qed
  next
    case one
    show ?thesis
    proof (cases "pre = []")
      case True
      have c: "cstr ?buf 0 = [CHR ''*''] @ [c] @ []"
        using rec one True by simp
      have "strtok ?buf 0 = Some (?buf[0 + length [CHR ''*''] + length [c] := NUL], 0 + length [CHR ''*''],
          0 + length [CHR ''*''] + length [c] + (if ([]::string) = [] then 0 else 1))"
        using one by (intro strtok_some [OF c]) auto
      then have first: "strtok ?buf 0 = Some (?buf, 1, 2)"
        using buf one True by simp
      have "cstr ?buf 2 = []"
        using buf one True by (simp add: cstr_def)
      then have "strtok ?buf 2 = None"
        by (intro strtok_none) simp
      from validate_one_token [OF fr first this] show ?thesis ..
    next
      case False
      let ?buf1 = "pre @ NUL # c # NUL # junk"
      have c1: "cstr ?buf 0 = [] @ pre @ (CHR ''*'' # post)"
        using rec by simp
      have "strtok ?buf 0 = Some (?buf[0 + length ([]::string) + length pre := NUL], 0 + length ([]::string),
          0 + length ([]::string) + length pre + (if CHR ''*'' # post = [] then 0 else 1))"
        using False pre by (intro strtok_some [OF c1]) auto
      then have first: "strtok ?buf 0 = Some (?buf1, 0, length pre + 1)"
        using buf one by simp
      have c2: "cstr ?buf1 (length pre + 1) = [] @ [c] @ []"
        using cstr_append [of "pre @ [NUL]" "c # NUL # junk" 0] buf(3) one by (simp add: cstr_def)
      have "strtok ?buf1 (length pre + 1) = Some (?buf1[length pre + 1 + length ([]::string) + length [c] := NUL],
          length pre + 1 + length ([]::string),
          length pre + 1 + length ([]::string) + length [c] + (if ([]::string) = [] then 0 else 1))"
        using one by (intro strtok_some [OF c2]) auto
      then have second: "strtok ?buf1 (length pre + 1) = Some (?buf1, length pre + 1, length pre + 2)"
        by (simp add: list_update_append)
      have len: "strlen ?buf1 (length pre + 1) = 1"
        using c2 by (simp add: strlen_def)
      from validate_two_tokens [OF fr first second, of now] len
      have "validate now s = (False, framer_reset (s\<lparr>sentence := ?buf1\<rparr>))"
        by simp
      then show ?thesis ..
    qed
  qed
qed


text \<open>
  A record with a payload before its first star and two characters other than a star
  after it: the verdict is the comparison of the payload's XOR with the two
  characters' value.
\<close>

lemma validate_record:
  assumes fr: "dataStart s" "dataStop s"
    and buf: "sentence s = pre @ CHR ''*'' # c1 # c2 # post @ NUL # junk"
    and nul: "NUL \<notin> set pre" "c1 \<noteq> NUL" "c2 \<noteq> NUL" "NUL \<notin> set post"
    and pre: "pre \<noteq> []" "CHR ''*'' \<notin> set pre"
    and cs: "c1 \<noteq> CHR ''*''" "c2 \<noteq> CHR ''*''"
  shows "\<exists>buf'. cstr buf' 0 = pre \<and> validate now s =
     (if xor_bytes pre = decode_hex2 c1 c2
      then (True, framer_reset (s\<lparr>sentence := buf', lastFixMillis := now\<rparr>))
      else (False, framer_reset (s\<lparr>sentence := buf', checksumErrors := checksumErrors s + 1,
              serial := serial s @ [CRCErrorCount (checksumErrors s + 1)]\<rparr>)))"
proof -
  let ?buf = "sentence s"
  let ?buf1 = "pre @ NUL # c1 # c2 # post @ NUL # junk"
  let ?tk = "takeWhile (\<lambda>c. c \<noteq> CHR ''*'') post"
  let ?rs = "dropWhile (\<lambda>c. c \<noteq> CHR ''*'') post"
  let ?stop = "length pre + 3 + length ?tk"
  let ?buf2 = "?buf1[?stop := NUL]"
  have c1: "cstr ?buf 0 = [] @ pre @ (CHR ''*'' # c1 # c2 # post)"
    using buf nul cstr_text [of "pre @ CHR ''*'' # c1 # c2 # post" junk] by simp
  have "strtok ?buf 0 = Some (?buf[0 + length ([]::string) + length pre := NUL], 0 + length ([]::string),
      0 + length ([]::string) + length pre + (if CHR ''*'' # c1 # c2 # post = [] then 0 else 1))"
    using pre by (intro strtok_some [OF c1]) auto
  then have first: "strtok ?buf 0 = Some (?buf1, 0, length pre + 1)"
    using buf by simp
  have str2: "cstr ?buf1 (length pre + 1) = c1 # c2 # post"
    using cstr_append [of "pre @ [NUL]" "c1 # c2 # post @ NUL # junk" 0] nul
      cstr_text [of "c1 # c2 # post" junk] by simp
  then have c2: "cstr ?buf1 (length pre + 1) = [] @ (c1 # c2 # ?tk) @ ?rs"
    by simp
  have rs: "?rs = [] \<or> hd ?rs = CHR ''*''"
    using hd_dropWhile [of "\<lambda>c. c \<noteq> CHR ''*''" post] by auto
  have e1: "length pre + 1 + length ([]::string) = length pre + 1"
    by simp
  have e2: "length pre + 1 + length (c1 # c2 # ?tk) = ?stop"
    by simp
  have "strtok ?buf1 (length pre + 1) =
      Some (?buf1[length pre + 1 + length ([]::string) + length (c1 # c2 # ?tk) := NUL],
            length pre + 1 + length ([]::string),
            length pre + 1 + length ([]::string) + length (c1 # c2 # ?tk) + (if ?rs = [] then 0 else 1))"
    using cs rs by (intro strtok_some [OF c2]) (auto dest: set_takeWhileD)
  then have second: "strtok ?buf1 (length pre + 1) =
      Some (?buf2, length pre + 1, ?stop + (if ?rs = [] then 0 else 1))"
    by (simp only: e1 e2)
  have "cstr ?buf2 (length pre + 1) = take (?stop - (length pre + 1)) (cstr ?buf1 (length pre + 1))"
    by (rule cstr_update_after) simp
  also have "\<dots> = c1 # c2 # take (length ?tk) post"
    unfolding str2 by simp
  finally have len: "2 \<le> strlen ?buf2 (length pre + 1)"
    by (simp add: strlen_def)
  have "cstr ?buf2 0 = take (?stop - 0) (cstr ?buf1 0)"
    by (rule cstr_update_after) simp
  also have "cstr ?buf1 0 = pre"
    using nul by (simp add: cstr_text)
  finally have payload: "cstr ?buf2 0 = pre"
    by simp
  then have calc: "ckSumCalc ?buf2 0 = xor_bytes pre"
    by (simp add: ckSumCalc_def xor_bytes_def)
  have "?buf2 ! (length pre + 1) = c1" "?buf2 ! (length pre + 1 + 1) = c2"
    by (simp_all add: nth_append)
  then have comp: "ckSumComp ?buf2 (length pre + 1) = decode_hex2 c1 c2"
    by (simp add: ckSumComp_def decode_hex2_def)
  from validate_two_tokens [OF fr first second, of now] len calc comp payload
  show ?thesis
    by (intro exI [of _ ?buf2]) simp
qed

section \<open>Hexadecimal digits\<close>

lemma char_codes:
  "CHR ''0'' = char_of (48::nat)" "CHR ''9'' = char_of (57::nat)" "CHR ''A'' = char_of (65::nat)"
  "CHR ''F'' = char_of (70::nat)" "CHR ''a'' = char_of (97::nat)" "CHR ''f'' = char_of (102::nat)"
  "CHR ''z'' = char_of (122::nat)" "CHR ''*'' = char_of (42::nat)" "NUL = char_of (0::nat)"
  by code_simp+

lemma char_of_le: "m < 256 \<Longrightarrow> k < 256 \<Longrightarrow> (char_of (m::nat) \<le> char_of (k::nat)) = (m \<le> k)"
  by (simp add: less_eq_char_def)

lemma char_of_eq: "m < 256 \<Longrightarrow> k < 256 \<Longrightarrow> (char_of (m::nat) = char_of (k::nat)) = (m = k)"
  by (metis of_char_of mod_less)

lemma byte_of_char_of: "m < 256 \<Longrightarrow> (of_char (char_of (m::nat)) :: byte) = of_nat m"
proof -
  assume m: "m < 256"
  have "(of_char (char_of m) :: byte) = of_nat (of_char (char_of m) :: nat)"
    by (simp only: of_nat_of_char)
  then show ?thesis
    using m by simp
qed

lemma hex_value_hex_digit:
  fixes n :: byte
  assumes "n < 16"
  shows "hex_value (hex_digit u n) = Some n \<and> hex_digit u n \<noteq> CHR ''*'' \<and> hex_digit u n \<noteq> NUL"
proof -
  from assms have k: "unat n < 16"
    by (simp add: word_less_nat_alt)
  have n: "of_nat (unat n) = n"
    by simp
  have ten: "(n < 10) = (unat n < 10)"
    by (simp add: word_less_nat_alt)
  show ?thesis
    using k n
    by (simp add: hex_digit_def hex_value_def ten char_codes char_of_le char_of_eq byte_of_char_of)
qed

lemma htoi_hex_value: "htoi c = (case hex_value c of Some v \<Rightarrow> v | None \<Rightarrow> 0)"
proof -
  define n where "n = (of_char c :: nat)"
  have n: "n < 256"
    by (simp add: n_def)
  have ord: "\<And>k. (char_of (k::nat) \<le> c) = (k mod 256 \<le> n)" "\<And>k. (c \<le> char_of (k::nat)) = (n \<le> k mod 256)"
    by (simp_all add: less_eq_char_def n_def)
  have lit: "CHR ''0'' = char_of (48::nat)" "CHR ''9'' = char_of (57::nat)" "CHR ''A'' = char_of (65::nat)"
    "CHR ''F'' = char_of (70::nat)" "CHR ''a'' = char_of (97::nat)" "CHR ''f'' = char_of (102::nat)"
    "CHR ''z'' = char_of (122::nat)"
    by code_simp+
  have w: "(of_char c :: byte) = of_nat n"
    by (simp add: n_def of_nat_of_char)
  have wl: "(of_char (char_of (48::nat)) :: byte) = 48" "(of_char (char_of (65::nat)) :: byte) = 65"
    by code_simp+
  show ?thesis
  proof (cases "97 \<le> n \<and> n \<le> 122")
    case True
    then have up: "toupper c = char_of (n - 32)"
      by (simp add: toupper_def lit ord n_def)
    have ordu: "\<And>k. (char_of (k::nat) \<le> char_of (n - 32)) = (k mod 256 \<le> n - 32)"
      "\<And>k. (char_of (n - 32) \<le> char_of (k::nat)) = (n - 32 \<le> k mod 256)"
      using n by (simp_all add: less_eq_char_def)
    have wu: "(of_char (char_of (n - 32)) :: byte) = of_nat n - 32"
    proof -
      have "(of_char (char_of (n - 32)) :: byte) = of_nat (of_char (char_of (n - 32)) :: nat)"
        by (simp only: of_nat_of_char)
      also have "\<dots> = of_nat (n - 32)"
        using n by simp
      also have "\<dots> = of_nat n - 32"
        using True by (simp add: of_nat_diff)
      finally show ?thesis .
    qed
    show ?thesis
      using True
      by (auto simp add: htoi_def hex_value_def up Let_def lit ordu ord wu w wl)
  next
    case False
    then have up: "toupper c = c"
      by (auto simp add: toupper_def lit ord)
    show ?thesis
      using False
      by (auto simp add: htoi_def hex_value_def up Let_def lit ord w wl)
  qed
qed

lemma htoi_hex_digit:
  fixes n :: byte
  assumes "n < 16"
  shows "htoi (hex_digit u n) = n \<and> hex_digit u n \<noteq> CHR ''*'' \<and> hex_digit u n \<noteq> NUL"
  using hex_value_hex_digit [OF assms, of u] by (simp add: htoi_hex_value)

lemma byte_nibbles: "push_bit 4 (drop_bit 4 b) + (b AND 15) = (b :: byte)"
proof -
  have "b AND 15 = take_bit 4 b"
    by (simp add: take_bit_eq_mask mask_eq_exp_minus_1)
  then show ?thesis
    by (simp add: bits_ident)
qed

lemma high_nibble: "drop_bit 4 (b :: byte) < 16"
proof -
  have "unat (drop_bit 4 b) = unat b div 16"
    by (simp add: drop_bit_eq_div unat_div)
  moreover have "unat b < 256"
    using unsigned_less [of b] by simp
  ultimately show ?thesis
    by (simp add: word_less_nat_alt)
qed

lemma low_nibble: "(b :: byte) AND 15 < 16"
proof -
  have "b AND 15 \<le> 15"
    by (rule word_and_le1)
  then show ?thesis
    by (simp add: word_le_nat_alt word_less_nat_alt)
qed

lemma decode_encode: "push_bit 4 (htoi (hex_digit u (drop_bit 4 b))) + htoi (hex_digit u (b AND 15)) = (b::byte)"
  using htoi_hex_digit [OF high_nibble, of u b] htoi_hex_digit [OF low_nibble, of u b] byte_nibbles [of b]
  by simp


section \<open>What the validator rejects\<close>

lemma split_at_star:
  assumes "CHR ''*'' \<in> set r"
  shows "r = payload_text r @ CHR ''*'' # checksum_text r \<and> CHR ''*'' \<notin> set (payload_text r)"
proof -
  let ?P = "\<lambda>c. c \<noteq> CHR ''*''"
  have "dropWhile ?P r \<noteq> []"
    using assms by (simp add: dropWhile_eq_Nil_conv)
  then obtain x xs where d: "dropWhile ?P r = x # xs"
    by (cases "dropWhile ?P r") auto
  then have "x = CHR ''*''"
    using hd_dropWhile [of ?P r] by auto
  with d have "r = takeWhile ?P r @ CHR ''*'' # xs"
    using takeWhile_dropWhile_id [of ?P r] by simp
  moreover have "checksum_text r = xs"
    by (simp add: checksum_text_def d)
  moreover have "CHR ''*'' \<notin> set (takeWhile ?P r)"
    by (auto dest: set_takeWhileD)
  ultimately show ?thesis
    by (simp add: payload_text_def)
qed

lemma loop_rejected:
  assumes "drain (bufferHead (check_overflow s0)) (check_overflow s0) = Some s"
    and "\<not> fst (validate now s)"
  shows "loop TZOFFSET past behind now later s0 = Some (check_lost later (snd (validate now s)))"
  using assms by (cases "validate now s") (simp add: loop_def getSentence_def)

text \<open>
  Claim C5, as amended. For a framed record \<open>r\<close> in the buffer:
  \<^item> without a star it is rejected, and only the framer's flags change;
  \<^item> with fewer than two characters after its first star it is rejected, and only the
    framer's flags and the buffer change;
  \<^item> with a payload before the first star, two characters other than a star after it,
    and an XOR that differs from their value, it is rejected, the counter of
    checksum errors goes up by one and the count is printed;
  \<^item> a rejected record is not parsed: the pass of \<open>loop\<close> ends with the validator's
    state, checked for a lost signal.
  The first two rejections neither count nor print: the counterexample is the record
  \<open>GPRMC\<close>, which is rejected with the counter and the console as they were.
\<close>

theorem validate_rejections:
  assumes fr: "dataStart s" "dataStop s"
    and buf: "sentence s = r @ NUL # junk" "NUL \<notin> set r"
  shows "(CHR ''*'' \<notin> set r \<longrightarrow> validate now s = (False, framer_reset s))
    \<and> (length (checksum_text r) < 2 \<longrightarrow>
         (\<exists>buf'. validate now s = (False, framer_reset (s\<lparr>sentence := buf'\<rparr>))))
    \<and> (CHR ''*'' \<in> set r \<and> payload_text r \<noteq> [] \<and> 2 \<le> length (checksum_text r)
         \<and> CHR ''*'' \<notin> set (take 2 (checksum_text r))
         \<and> xor_bytes (payload_text r) \<noteq> decode_hex2 (checksum_text r ! 0) (checksum_text r ! 1) \<longrightarrow>
         (\<exists>buf'. validate now s =
            (False, framer_reset (s\<lparr>sentence := buf', checksumErrors := checksumErrors s + 1,
               serial := serial s @ [CRCErrorCount (checksumErrors s + 1)]\<rparr>))))
    \<and> (\<forall>s0 TZOFFSET past behind later.
          drain (bufferHead (check_overflow s0)) (check_overflow s0) = Some s \<and> \<not> fst (validate now s) \<longrightarrow>
          loop TZOFFSET past behind now later s0 = Some (check_lost later (snd (validate now s))))"
proof (intro conjI impI allI)
  assume "CHR ''*'' \<notin> set r"
  then show "validate now s = (False, framer_reset s)"
    by (rule validate_no_star [OF fr buf])
next
  assume short: "length (checksum_text r) < 2"
  show "\<exists>buf'. validate now s = (False, framer_reset (s\<lparr>sentence := buf'\<rparr>))"
  proof (cases "CHR ''*'' \<in> set r")
    case True
    from split_at_star [OF True] buf
    have "sentence s = payload_text r @ CHR ''*'' # checksum_text r @ NUL # junk"
      and "NUL \<notin> set (payload_text r)" "NUL \<notin> set (checksum_text r)"
      and "CHR ''*'' \<notin> set (payload_text r)"
      by (metis append.assoc append_Cons, (metis Un_iff set_append list.set_intros(2))+) 
    then show ?thesis
      using short by (intro validate_short [OF fr]) 
  next
    case False
    from validate_no_star [OF fr buf False, of now]
    have "validate now s = (False, framer_reset (s\<lparr>sentence := sentence s\<rparr>))"
      by simp
    then show ?thesis ..
  qed
next
  assume a: "CHR ''*'' \<in> set r \<and> payload_text r \<noteq> [] \<and> 2 \<le> length (checksum_text r)
         \<and> CHR ''*'' \<notin> set (take 2 (checksum_text r))
         \<and> xor_bytes (payload_text r) \<noteq> decode_hex2 (checksum_text r ! 0) (checksum_text r ! 1)"
  then obtain c1 c2 post where ck: "checksum_text r = c1 # c2 # post"
    by (cases "checksum_text r"; cases "tl (checksum_text r)") auto
  from a have star: "CHR ''*'' \<in> set r" by simp
  from split_at_star [OF star] buf ck
  have shape: "sentence s = payload_text r @ CHR ''*'' # c1 # c2 # post @ NUL # junk"
    and nul: "NUL \<notin> set (payload_text r)" "c1 \<noteq> NUL" "c2 \<noteq> NUL" "NUL \<notin> set post"
    and pre: "CHR ''*'' \<notin> set (payload_text r)"
    by (metis append.assoc append_Cons, (metis Un_iff set_append list.set_intros)+)
  from a ck have cs: "c1 \<noteq> CHR ''*''" "c2 \<noteq> CHR ''*''" and pl: "payload_text r \<noteq> []"
    and ne: "xor_bytes (payload_text r) \<noteq> decode_hex2 c1 c2"
    by auto
  from validate_record [OF fr shape nul pl pre cs, of now] ne
  show "\<exists>buf'. validate now s =
            (False, framer_reset (s\<lparr>sentence := buf', checksumErrors := checksumErrors s + 1,
               serial := serial s @ [CRCErrorCount (checksumErrors s + 1)]\<rparr>))"
    by auto
next
  fix s0 TZOFFSET past behind later
  assume "drain (bufferHead (check_overflow s0)) (check_overflow s0) = Some s \<and> \<not> fst (validate now s)"
  then show "loop TZOFFSET past behind now later s0 = Some (check_lost later (snd (validate now s)))"
    by (intro loop_rejected) auto
qed


theorem validate_rejections_witness:
  "\<exists>buf'. validate 7
      (power_on\<lparr>sentence := ''A*00'' @ NUL # replicate 75 NUL, dataStart := True, dataStop := True\<rparr>) =
     (False, framer_reset (power_on\<lparr>sentence := buf',
        checksumErrors := checksumErrors power_on + 1,
        serial := serial power_on @ [CRCErrorCount (checksumErrors power_on + 1)]\<rparr>))"
proof -
  let ?s = "power_on\<lparr>sentence := ''A*00'' @ NUL # replicate 75 NUL, dataStart := True, dataStop := True\<rparr>"
  have rec: "CHR ''*'' \<in> set ''A*00'' \<and> payload_text ''A*00'' \<noteq> [] \<and> 2 \<le> length (checksum_text ''A*00'')
      \<and> CHR ''*'' \<notin> set (take 2 (checksum_text ''A*00''))
      \<and> xor_bytes (payload_text ''A*00'') \<noteq> decode_hex2 (checksum_text ''A*00'' ! 0) (checksum_text ''A*00'' ! 1)"
    by code_simp
  have "dataStart ?s" "dataStop ?s" "sentence ?s = ''A*00'' @ NUL # replicate 75 NUL" "NUL \<notin> set ''A*00''"
    by simp_all
  from validate_rejections [OF this, of 7, THEN conjunct2, THEN conjunct2, THEN conjunct1, THEN mp, OF rec]
  show ?thesis
    by (simp add: framer_reset_def)
qed

theorem validate_rejections_counterexample:
  "fst (validate 7 (power_on\<lparr>sentence := ''GPRMC'' @ NUL # replicate 74 NUL,
                          dataStart := True, dataStop := True\<rparr>)) = False
   \<and> checksumErrors (snd (validate 7 (power_on\<lparr>sentence := ''GPRMC'' @ NUL # replicate 74 NUL,
                          dataStart := True, dataStop := True\<rparr>))) = checksumErrors power_on
   \<and> serial (snd (validate 7 (power_on\<lparr>sentence := ''GPRMC'' @ NUL # replicate 74 NUL,
                          dataStart := True, dataStop := True\<rparr>))) = serial power_on"
proof -
  let ?s = "power_on\<lparr>sentence := ''GPRMC'' @ NUL # replicate 74 NUL, dataStart := True, dataStop := True\<rparr>"
  have "validate 7 ?s = (False, framer_reset ?s)"
    by (rule validate_no_star [where r = "''GPRMC''" and junk = "replicate 74 NUL"]) simp_all
  then show ?thesis
    by (simp add: framer_reset_def)
qed

section \<open>What the validator accepts\<close>

text \<open>
  A record that starts with its star has no payload token: what follows the star is
  taken for the payload, and no checksum is found.
\<close>

lemma validate_empty_payload:
  assumes fr: "dataStart s" "dataStop s"
    and buf: "sentence s = CHR ''*'' # c1 # c2 # NUL # junk"
    and cs: "c1 \<noteq> NUL" "c2 \<noteq> NUL" "c1 \<noteq> CHR ''*''" "c2 \<noteq> CHR ''*''"
  shows "validate now s = (False, framer_reset s)"
proof -
  let ?buf = "sentence s"
  have c: "cstr ?buf 0 = [CHR ''*''] @ [c1, c2] @ []"
    using buf cs by (simp add: cstr_def)
  have "strtok ?buf 0 = Some (?buf[0 + length [CHR ''*''] + length [c1, c2] := NUL], 0 + length [CHR ''*''],
      0 + length [CHR ''*''] + length [c1, c2] + (if ([]::string) = [] then 0 else 1))"
    using cs by (intro strtok_some [OF c]) auto
  then have first: "strtok ?buf 0 = Some (?buf, 1, 3)"
    using buf by simp
  have "cstr ?buf 3 = []"
    using buf by (simp add: cstr_def)
  then have "strtok ?buf 3 = None"
    by (intro strtok_none) simp
  from validate_one_token [OF fr first this, of now] show ?thesis
    by simp
qed

text \<open>
  Claim C6, as amended. For every payload that is not empty and holds no star (and no
  NUL, which no string holds), the record made of the payload, a star and the two
  hexadecimal digits of the payload's XOR, in upper or in lower case, is accepted,
  and the buffer then holds the payload as its first string. The transmitted value is
  16 times the value of the first character plus the value of the second, where a
  hexadecimal digit of either case has its value and any other character has 0.
  The empty payload is the counterexample: \<open>strtok\<close> skips the leading star of \<open>*00\<close>,
  takes \<open>00\<close> for the payload and finds no checksum, so the record is rejected.
\<close>

theorem checksum_roundtrip:
  assumes fr: "dataStart s" "dataStop s"
    and buf: "sentence s = payload @ CHR ''*'' # encode_hex2 upper (xor_bytes payload) @ NUL # junk"
    and payload: "payload \<noteq> []" "CHR ''*'' \<notin> set payload" "NUL \<notin> set payload"
  shows "(\<exists>buf'. cstr buf' 0 = payload \<and>
            validate now s = (True, framer_reset (s\<lparr>sentence := buf', lastFixMillis := now\<rparr>)))
    \<and> (\<forall>buf nmeaCkSum. ckSumComp buf nmeaCkSum =
           16 * digit_value (buf ! nmeaCkSum) + digit_value (buf ! (nmeaCkSum + 1)))"
proof
  let ?x = "xor_bytes payload"
  let ?c1 = "hex_digit upper (drop_bit 4 ?x)" and ?c2 = "hex_digit upper (?x AND 15)"
  have shape: "sentence s = payload @ CHR ''*'' # ?c1 # ?c2 # [] @ NUL # junk"
    using buf by (simp add: encode_hex2_def)
  have c1: "?c1 \<noteq> NUL" "?c1 \<noteq> CHR ''*''"
    using htoi_hex_digit [OF high_nibble, of upper ?x] by simp_all
  have c2: "?c2 \<noteq> NUL" "?c2 \<noteq> CHR ''*''"
    using htoi_hex_digit [OF low_nibble, of upper ?x] by simp_all
  have "decode_hex2 ?c1 ?c2 = ?x"
    unfolding decode_hex2_def by (rule decode_encode)
  with validate_record [OF fr shape payload(3) c1(1) c2(1) _ payload(1,2) c1(2) c2(2), of now]
  show "\<exists>buf'. cstr buf' 0 = payload \<and>
            validate now s = (True, framer_reset (s\<lparr>sentence := buf', lastFixMillis := now\<rparr>))"
    by simp
next
  show "\<forall>buf nmeaCkSum. ckSumComp buf nmeaCkSum =
           16 * digit_value (buf ! nmeaCkSum) + digit_value (buf ! (nmeaCkSum + 1))"
    by (simp add: ckSumComp_def digit_value_def htoi_hex_value push_bit_eq_mult)
qed

theorem checksum_roundtrip_witness:
  "\<exists>buf'. cstr buf' 0 = ''GPRMC,123519,A,4807.038,N,01131.000,E,,,230394,,,A'' \<and>
     validate 7
       (power_on\<lparr>sentence := ''GPRMC,123519,A,4807.038,N,01131.000,E,,,230394,,,A'' @ CHR ''*'' #
            encode_hex2 True (xor_bytes ''GPRMC,123519,A,4807.038,N,01131.000,E,,,230394,,,A'') @ NUL # replicate 26 NUL,
          dataStart := True, dataStop := True\<rparr>) =
     (True, framer_reset (power_on\<lparr>sentence := buf', lastFixMillis := 7\<rparr>))"
proof -
  let ?p = "''GPRMC,123519,A,4807.038,N,01131.000,E,,,230394,,,A''"
  let ?s = "power_on\<lparr>sentence := ?p @ CHR ''*'' # encode_hex2 True (xor_bytes ?p) @ NUL # replicate 26 NUL,
          dataStart := True, dataStop := True\<rparr>"
  have "dataStart ?s" "dataStop ?s"
    "sentence ?s = ?p @ CHR ''*'' # encode_hex2 True (xor_bytes ?p) @ NUL # replicate 26 NUL"
    "?p \<noteq> []" "CHR ''*'' \<notin> set ?p" "NUL \<notin> set ?p"
    by simp_all
  from checksum_roundtrip [OF this, of 7, THEN conjunct1] show ?thesis
    by (simp add: framer_reset_def)
qed

theorem checksum_roundtrip_counterexample:
  "fst (validate 7 (power_on\<lparr>sentence := [] @ CHR ''*'' # encode_hex2 True (xor_bytes []) @ NUL # replicate 76 NUL,
                          dataStart := True, dataStop := True\<rparr>)) = False"
proof -
  have e: "encode_hex2 True (xor_bytes []) = ''00''"
    by code_simp
  let ?s = "power_on\<lparr>sentence := CHR ''*'' # CHR ''0'' # CHR ''0'' # NUL # replicate 76 NUL,
                          dataStart := True, dataStop := True\<rparr>"
  have "validate 7 ?s = (False, framer_reset ?s)"
    by (rule validate_empty_payload) (simp_all, code_simp+)
  then show ?thesis
    by (simp add: e)
qed

section \<open>A rejected record leaves the Fix alone\<close>

lemma drain_framer_only:
  assumes "drain headCopy s0 = Some s0'"
  shows "framer_only s0 s0'"
proof (rule drain.raw_induct [where P = "\<lambda>h s s'. framer_only s s'", OF _ assms], goal_cases)
  case (1 drain bufferHeadCopy s s')
  show ?case
  proof (cases "bufferTail s \<noteq> bufferHeadCopy")
    case False
    with 1(2) show ?thesis
      by (simp add: framer_only_def)
  next
    case True
    let ?s1 = "ring_advance s"
    consider (start) "ring_read s = CHR ''$''"
      | (idle) "ring_read s \<noteq> CHR ''$''" "\<not> dataStart ?s1"
      | (stop) "ring_read s \<noteq> CHR ''$''" "dataStart ?s1"
          "ring_read s = CR \<or> ring_read s = LF \<or> dataCounter ?s1 = of_nat NMEAMAXLEN"
      | (more) "ring_read s \<noteq> CHR ''$''" "dataStart ?s1"
          "\<not> (ring_read s = CR \<or> ring_read s = LF \<or> dataCounter ?s1 = of_nat NMEAMAXLEN)"
      by blast
    then show ?thesis
    proof cases
      case start
      with 1(2) True have "drain bufferHeadCopy (?s1\<lparr>dataStart := True, dataStop := False, dataCounter := 0\<rparr>) = Some s'"
        by (simp add: Let_def)
      from 1(1) [OF this] show ?thesis
        by (simp add: framer_only_def ring_advance_def Fix_def)
    next
      case idle
      with 1(2) True have "drain bufferHeadCopy ?s1 = Some s'"
        by (simp add: Let_def)
      from 1(1) [OF this] show ?thesis
        by (simp add: framer_only_def ring_advance_def Fix_def)
    next
      case stop
      with 1(2) True have "s' = ?s1\<lparr>dataStop := True, sentence := (sentence ?s1)[unat (dataCounter ?s1) := NUL]\<rparr>"
        by (simp add: Let_def)
      then show ?thesis
        by (simp add: framer_only_def ring_advance_def Fix_def)
    next
      case more
      with 1(2) True have "drain bufferHeadCopy
          (?s1\<lparr>sentence := (sentence ?s1)[unat (dataCounter ?s1) := ring_read s],
               dataCounter := dataCounter ?s1 + 1\<rparr>) = Some s'"
        by (simp add: Let_def)
      from 1(1) [OF this] show ?thesis
        by (simp add: framer_only_def ring_advance_def Fix_def)
    qed
  qed
qed

lemma validate_verdict:
  assumes "dataStart s" "dataStop s"
  shows "Fix (snd (validate now s)) = Fix s
    \<and> (fst (validate now s) \<longrightarrow> \<not> checksum_mismatch s)
    \<and> checksumErrors (snd (validate now s)) = (if checksum_mismatch s then checksumErrors s + 1 else checksumErrors s)
    \<and> serial (snd (validate now s)) =
        (if checksum_mismatch s then serial s @ [CRCErrorCount (checksumErrors s + 1)] else serial s)"
  using assms
  by (simp add: validate_def checksum_mismatch_def Fix_def split: option.split prod.split)


lemma Fix_check_lost [simp]: "Fix (check_lost later s) = Fix s"
  by (simp add: check_lost_def Fix_def)

lemma checksumErrors_check_lost [simp]: "checksumErrors (check_lost later s) = checksumErrors s"
  by (simp add: check_lost_def)

lemma serial_check_lost: "set (serial s) \<subseteq> set (serial (check_lost later s))"
  by (auto simp add: check_lost_def)

lemma Fix_check_overflow [simp]: "Fix (check_overflow s) = Fix s"
  by (simp add: check_overflow_def Fix_def)

lemma checksumErrors_check_overflow [simp]: "checksumErrors (check_overflow s) = checksumErrors s"
  by (simp add: check_overflow_def)

text \<open>
  Claim C8, as amended. When the framing loop of a pass of \<open>loop\<close> has completed a
  record and the validator rejects it, the pass ends without parsing: the Fix after
  the pass is the Fix before it. The record is counted, and the count printed, when
  the rejection is a checksum mismatch; a record without a star, or with fewer than
  two characters after it, is dropped without being counted. The counterexample is
  the record \<open>GPGGA,1*5\<close>: framed, rejected, and the counter and the console are as
  they were.
\<close>

theorem rejected_record_discarded:
  assumes framer: "drain (bufferHead (check_overflow s0)) (check_overflow s0) = Some s"
    and framed: "dataStart s" "dataStop s"
    and rejected: "\<not> fst (validate now s)"
  shows "\<exists>s'. loop TZOFFSET past behind now later s0 = Some s'
    \<and> s' = check_lost later (snd (validate now s))
    \<and> Fix s' = Fix s0
    \<and> checksumErrors s' = (if checksum_mismatch s then checksumErrors s0 + 1 else checksumErrors s0)
    \<and> serial (snd (validate now s)) =
        serial (check_overflow s0) @
        (if checksum_mismatch s then [CRCErrorCount (checksumErrors s0 + 1)] else [])"
proof -
  let ?v = "snd (validate now s)"
  have run: "loop TZOFFSET past behind now later s0 = Some (check_lost later ?v)"
    using framer rejected by (rule loop_rejected)
  from drain_framer_only [OF framer]
  have same: "Fix s = Fix s0" "checksumErrors s = checksumErrors s0" "serial s = serial (check_overflow s0)"
    by (simp_all add: framer_only_def)
  from validate_verdict [OF framed, of now]
  have v: "Fix ?v = Fix s"
    "checksumErrors ?v = (if checksum_mismatch s then checksumErrors s + 1 else checksumErrors s)"
    "serial ?v = (if checksum_mismatch s then serial s @ [CRCErrorCount (checksumErrors s + 1)] else serial s)"
    by simp_all
  show ?thesis
    using run v same by simp
qed


theorem rejected_record_discarded_witness:
  "\<exists>s'. loop 0 (\<lambda>_. NUL) (\<lambda>_. 0) 7 8 (gpsDataReadISR (''$A*00'' @ [CR]) power_on) = Some s'
     \<and> Fix s' = Fix (gpsDataReadISR (''$A*00'' @ [CR]) power_on)
     \<and> checksumErrors s' = checksumErrors (gpsDataReadISR (''$A*00'' @ [CR]) power_on) + 1"
proof -
  let ?s0 = "gpsDataReadISR (''$A*00'' @ [CR]) power_on"
  have "case drain (bufferHead (check_overflow ?s0)) (check_overflow ?s0) of
          None \<Rightarrow> False
        | Some s \<Rightarrow> dataStart s \<and> dataStop s \<and> \<not> fst (validate 7 s) \<and> checksum_mismatch s"
    by code_simp
  then obtain s where "drain (bufferHead (check_overflow ?s0)) (check_overflow ?s0) = Some s"
    "dataStart s" "dataStop s" "\<not> fst (validate 7 s)" and mm: "checksum_mismatch s"
    by (auto split: option.splits)
  from rejected_record_discarded [OF this(1-4), of 0 "\<lambda>_. NUL" "\<lambda>_. 0" 8] mm show ?thesis
    by auto
qed


theorem rejected_record_discarded_counterexample:
  "\<exists>s s'. drain (bufferHead (check_overflow (gpsDataReadISR (''$GPGGA,1*5'' @ [CR]) power_on)))
              (check_overflow (gpsDataReadISR (''$GPGGA,1*5'' @ [CR]) power_on)) = Some s
     \<and> dataStart s \<and> dataStop s \<and> cstr (sentence s) 0 = ''GPGGA,1*5'' \<and> \<not> fst (validate 7 s)
     \<and> loop 0 (\<lambda>_. NUL) (\<lambda>_. 0) 7 8 (gpsDataReadISR (''$GPGGA,1*5'' @ [CR]) power_on) = Some s'
     \<and> checksumErrors s' = checksumErrors (gpsDataReadISR (''$GPGGA,1*5'' @ [CR]) power_on)
     \<and> serial s' = serial (gpsDataReadISR (''$GPGGA,1*5'' @ [CR]) power_on)"
proof -
  let ?s0 = "gpsDataReadISR (''$GPGGA,1*5'' @ [CR]) power_on"
  have "case drain (bufferHead (check_overflow ?s0)) (check_overflow ?s0) of
          None \<Rightarrow> False
        | Some s \<Rightarrow> dataStart s \<and> dataStop s \<and> cstr (sentence s) 0 = ''GPGGA,1*5'' \<and> \<not> fst (validate 7 s)"
    by code_simp
  moreover have "case loop 0 (\<lambda>_. NUL) (\<lambda>_. 0) 7 8 ?s0 of
          None \<Rightarrow> False
        | Some s' \<Rightarrow> checksumErrors s' = checksumErrors ?s0 \<and> serial s' = serial ?s0"
    by code_simp
  ultimately show ?thesis
    by (auto split: option.splits)
qed

section \<open>The example sentences\<close>

text \<open>The ISR at work on a ring that nothing has been read from.\<close>

lemma isr_fills_ring:
  assumes "gpsDataBuffer s = xs @ replicate (GPSBUFR1 - length xs) NUL"
    and "bufferHead s = length xs" "bufferTail s = 0"
    and "length xs + length available < GPSBUFR1"
  shows "gpsDataReadISR available s =
           s\<lparr>gpsDataBuffer := (xs @ available) @ replicate (GPSBUFR1 - length (xs @ available)) NUL,
             bufferHead := length (xs @ available)\<rparr>"
  using assms
proof (induction available arbitrary: s xs)
  case Nil
  then show ?case
    by (simp add: gpsDataReadISR_def)
next
  case (Cons c cs)
  let ?s1 = "isr_byte c s"
  from Cons.prems have room: "Suc (length xs) < GPSBUFR1"
    by simp
  then have "replicate (GPSBUFR1 - length xs) NUL = NUL # replicate (GPSBUFR1 - length (xs @ [c])) NUL"
    by (cases "GPSBUFR1 - length xs") (simp_all add: Suc_diff_Suc)
  then have upd: "(gpsDataBuffer s)[length xs := c] = (xs @ [c]) @ replicate (GPSBUFR1 - length (xs @ [c])) NUL"
    using Cons.prems(1) by (simp add: list_update_append)
  have step: "?s1 = s\<lparr>gpsDataBuffer := (xs @ [c]) @ replicate (GPSBUFR1 - length (xs @ [c])) NUL,
                      bufferHead := length (xs @ [c])\<rparr>"
    using Cons.prems(2,3) room upd by (simp add: isr_byte_def Let_def)
  have "gpsDataReadISR cs ?s1 =
      ?s1\<lparr>gpsDataBuffer := ((xs @ [c]) @ cs) @ replicate (GPSBUFR1 - length ((xs @ [c]) @ cs)) NUL,
          bufferHead := length ((xs @ [c]) @ cs)\<rparr>"
    using Cons.prems by (intro Cons.IH) (simp_all add: step)
  then show ?case
    by (simp add: gpsDataReadISR_def step)
qed

text \<open>
  The record of the specification's example, with empty fields 7 and 8, evaluated
  for any values of the other globals.
\<close>

lemma rmc_example_accepted:
  "validate now
     \<lparr>gpsDataBuffer = rb, bufferHead = bh, bufferTail = bt, bufferOverflow = ov,
      sentence = ''GPRMC,123519,A,4807.038,N,01131.000,E,,,230394,,,A*70'' @ replicate 27 NUL,
      dataStart = True, dataStop = True, dataCounter = dc,
      gpsValid = v, gpsDateD = dd, gpsDateM = dm, gpsDateY = dy, gpsTimeH = th, gpsTimeM = tm, gpsTimeS = ts,
      gpsLatD = lat, gpsLongD = lon, gpsSats = sats, checksumErrors = ce, lastFixMillis = lm,
      signalWarning = sw, serial = ser\<rparr> =
   (True,
     \<lparr>gpsDataBuffer = rb, bufferHead = bh, bufferTail = bt, bufferOverflow = ov,
      sentence = ''GPRMC,123519,A,4807.038,N,01131.000,E,,,230394,,,A'' @ NUL # ''70'' @ replicate 27 NUL,
      dataStart = False, dataStop = False, dataCounter = 0,
      gpsValid = v, gpsDateD = dd, gpsDateM = dm, gpsDateY = dy, gpsTimeH = th, gpsTimeM = tm, gpsTimeS = ts,
      gpsLatD = lat, gpsLongD = lon, gpsSats = sats, checksumErrors = ce, lastFixMillis = now,
      signalWarning = sw, serial = ser\<rparr>)"
  by code_simp

lemma rmc_example_parsed:
  "Fix (parseSentence past
     \<lparr>gpsDataBuffer = rb, bufferHead = bh, bufferTail = bt, bufferOverflow = ov,
      sentence = ''GPRMC,123519,A,4807.038,N,01131.000,E,,,230394,,,A'' @ NUL # ''70'' @ replicate 27 NUL,
      dataStart = False, dataStop = False, dataCounter = 0,
      gpsValid = v, gpsDateD = dd, gpsDateM = dm, gpsDateY = dy, gpsTimeH = th, gpsTimeM = tm, gpsTimeS = ts,
      gpsLatD = lat, gpsLongD = lon, gpsSats = sats, checksumErrors = ce, lastFixMillis = now,
      signalWarning = sw, serial = ser\<rparr>) =
   ((12, 35, 19), (dd, dm, dy), 481173 / 10000, 691 / 60, True, sats)"
  by code_simp

text \<open>
  Claim C1 does not hold of the code. The record
  \<open>GPRMC,123519,A,4807.038,N,01131.000,E,,,230394,,,A*70\<close> is accepted, and
  \<open>parseSentence\<close> sets the time to 12:35:19, the validity flag, the latitude to
  48.1173 and the longitude to 11 + 31/60 degrees, but it leaves the date as it was
  (here 22/03/94): the scan ends at the empty field 7, so field 9 is never read.
\<close>

theorem rmc_example_date_kept:
  "validate 7 (power_on\<lparr>sentence := ''GPRMC,123519,A,4807.038,N,01131.000,E,,,230394,,,A*70'' @ replicate 27 NUL,
                 dataStart := True, dataStop := True, dataCounter := 53,
                 gpsDateD := 22, gpsDateM := 3, gpsDateY := 94\<rparr>) =
     (True, power_on\<lparr>sentence := ''GPRMC,123519,A,4807.038,N,01131.000,E,,,230394,,,A'' @ NUL # ''70'' @ replicate 27 NUL,
                 lastFixMillis := 7, gpsDateD := 22, gpsDateM := 3, gpsDateY := 94\<rparr>)
   \<and> Fix (parseSentence (\<lambda>_. NUL)
          (power_on\<lparr>sentence := ''GPRMC,123519,A,4807.038,N,01131.000,E,,,230394,,,A'' @ NUL # ''70'' @ replicate 27 NUL,
                 lastFixMillis := 7, gpsDateD := 22, gpsDateM := 3, gpsDateY := 94\<rparr>)) =
       ((12, 35, 19), (22, 3, 94), 481173 / 10000, 691 / 60, True, 0)"
proof -
  have framed: "power_on\<lparr>sentence := ''GPRMC,123519,A,4807.038,N,01131.000,E,,,230394,,,A*70'' @ replicate 27 NUL,
                 dataStart := True, dataStop := True, dataCounter := 53,
                 gpsDateD := 22, gpsDateM := 3, gpsDateY := 94\<rparr> =
     \<lparr>gpsDataBuffer = replicate GPSBUFR1 NUL, bufferHead = 0, bufferTail = 0, bufferOverflow = False,
      sentence = ''GPRMC,123519,A,4807.038,N,01131.000,E,,,230394,,,A*70'' @ replicate 27 NUL,
      dataStart = True, dataStop = True, dataCounter = 53,
      gpsValid = False, gpsDateD = 22, gpsDateM = 3, gpsDateY = 94, gpsTimeH = 0, gpsTimeM = 0, gpsTimeS = 0,
      gpsLatD = 0, gpsLongD = 0, gpsSats = 0, checksumErrors = 0, lastFixMillis = 0,
      signalWarning = False, serial = []\<rparr>"
    by (simp add: power_on_def)
  have accepted: "power_on\<lparr>sentence := ''GPRMC,123519,A,4807.038,N,01131.000,E,,,230394,,,A'' @ NUL # ''70'' @ replicate 27 NUL,
                 lastFixMillis := 7, gpsDateD := 22, gpsDateM := 3, gpsDateY := 94\<rparr> =
     \<lparr>gpsDataBuffer = replicate GPSBUFR1 NUL, bufferHead = 0, bufferTail = 0, bufferOverflow = False,
      sentence = ''GPRMC,123519,A,4807.038,N,01131.000,E,,,230394,,,A'' @ NUL # ''70'' @ replicate 27 NUL,
      dataStart = False, dataStop = False, dataCounter = 0,
      gpsValid = False, gpsDateD = 22, gpsDateM = 3, gpsDateY = 94, gpsTimeH = 0, gpsTimeM = 0, gpsTimeS = 0,
      gpsLatD = 0, gpsLongD = 0, gpsSats = 0, checksumErrors = 0, lastFixMillis = 7,
      signalWarning = False, serial = []\<rparr>"
    by (simp add: power_on_def)
  show ?thesis
    unfolding framed accepted by (simp only: rmc_example_accepted rmc_example_parsed simp_thms)
qed

text \<open>Two passes of \<open>loop\<close> over an accepted GPGGA sentence, evaluated.\<close>

lemma gga_pass:
  "map_option Fix
     (loop 1 past behind 7 8
       \<lparr>gpsDataBuffer = ''$GPGGA,123519,4807.038,N,01131.000,E,1,08,0.9,545.4,M,46.9,M,,*47'' @ CR # LF # rest,
        bufferHead = 67, bufferTail = 0, bufferOverflow = False,
        sentence = replicate 80 NUL, dataStart = False, dataStop = False, dataCounter = 0,
        gpsValid = True, gpsDateD = 23, gpsDateM = 3, gpsDateY = 94, gpsTimeH = 13, gpsTimeM = 35, gpsTimeS = 19,
        gpsLatD = lat, gpsLongD = lon, gpsSats = 0, checksumErrors = ce, lastFixMillis = 0,
        signalWarning = False, serial = []\<rparr>) =
   Some ((14, 35, 19), (23, 3, 94), lat, lon, True, 8)"
  by code_simp

lemma gga_pass_cold:
  "map_option Fix
     (loop 0 past behind 7 8
       \<lparr>gpsDataBuffer = ''$GPGGA,,,,,,0,00,99.99,,,,,,*48'' @ CR # LF # rest,
        bufferHead = 33, bufferTail = 0, bufferOverflow = False,
        sentence = replicate 80 NUL, dataStart = False, dataStop = False, dataCounter = 0,
        gpsValid = False, gpsDateD = 0, gpsDateM = 0, gpsDateY = 0, gpsTimeH = 0, gpsTimeM = 0, gpsTimeS = 0,
        gpsLatD = lat, gpsLongD = lon, gpsSats = 0, checksumErrors = ce, lastFixMillis = 0,
        signalWarning = False, serial = []\<rparr>) =
   Some ((0, 0, 0), (31, 12, 99), lat, lon, False, 0)"
  by code_simp

text \<open>
  Claim C4 does not hold of the code: the timezone block runs after every accepted
  sentence, whatever its type. With an offset of +1 and a Fix that already holds the
  local time 13:35:19, a pass over a GPGGA sentence moves the hour to 14. With the
  offset 0 of the sketch as shipped, a pass over a GPGGA sentence at power-on turns
  the date 00/00/00 into 31/12/99.
\<close>

theorem gga_pass_applies_offset:
  "map_option Fix
     (loop 1 (\<lambda>_. NUL) (\<lambda>_. 0) 7 8
       (gpsDataReadISR (''$GPGGA,123519,4807.038,N,01131.000,E,1,08,0.9,545.4,M,46.9,M,,*47'' @ [CR, LF])
          (power_on\<lparr>gpsValid := True, gpsDateD := 23, gpsDateM := 3, gpsDateY := 94,
                    gpsTimeH := 13, gpsTimeM := 35, gpsTimeS := 19\<rparr>))) =
     Some ((14, 35, 19), (23, 3, 94), 0, 0, True, 8)
   \<and> map_option Fix
     (loop 0 (\<lambda>_. NUL) (\<lambda>_. 0) 7 8
       (gpsDataReadISR (''$GPGGA,,,,,,0,00,99.99,,,,,,*48'' @ [CR, LF]) power_on)) =
     Some ((0, 0, 0), (31, 12, 99), 0, 0, False, 0)"
proof -
  let ?warm = "power_on\<lparr>gpsValid := True, gpsDateD := 23, gpsDateM := 3, gpsDateY := 94,
                    gpsTimeH := 13, gpsTimeM := 35, gpsTimeS := 19\<rparr>"
  have "gpsDataReadISR (''$GPGGA,123519,4807.038,N,01131.000,E,1,08,0.9,545.4,M,46.9,M,,*47'' @ [CR, LF]) ?warm =
       \<lparr>gpsDataBuffer = ''$GPGGA,123519,4807.038,N,01131.000,E,1,08,0.9,545.4,M,46.9,M,,*47'' @ CR # LF # replicate 445 NUL,
        bufferHead = 67, bufferTail = 0, bufferOverflow = False,
        sentence = replicate 80 NUL, dataStart = False, dataStop = False, dataCounter = 0,
        gpsValid = True, gpsDateD = 23, gpsDateM = 3, gpsDateY = 94, gpsTimeH = 13, gpsTimeM = 35, gpsTimeS = 19,
        gpsLatD = 0, gpsLongD = 0, gpsSats = 0, checksumErrors = 0, lastFixMillis = 0,
        signalWarning = False, serial = []\<rparr>"
    by (subst isr_fills_ring [where xs = "[]"]) (simp_all add: power_on_def GPSBUFR1_def NMEAMAXLEN_def)
  moreover have "gpsDataReadISR (''$GPGGA,,,,,,0,00,99.99,,,,,,*48'' @ [CR, LF]) power_on =
       \<lparr>gpsDataBuffer = ''$GPGGA,,,,,,0,00,99.99,,,,,,*48'' @ CR # LF # replicate 479 NUL,
        bufferHead = 33, bufferTail = 0, bufferOverflow = False,
        sentence = replicate 80 NUL, dataStart = False, dataStop = False, dataCounter = 0,
        gpsValid = False, gpsDateD = 0, gpsDateM = 0, gpsDateY = 0, gpsTimeH = 0, gpsTimeM = 0, gpsTimeS = 0,
        gpsLatD = 0, gpsLongD = 0, gpsSats = 0, checksumErrors = 0, lastFixMillis = 0,
        signalWarning = False, serial = []\<rparr>"
    by (subst isr_fills_ring [where xs = "[]"]) (simp_all add: power_on_def GPSBUFR1_def NMEAMAXLEN_def)
  ultimately show ?thesis
    by (simp only: gga_pass gga_pass_cold simp_thms)
qed

section \<open>Fields in the buffer\<close>

text \<open>A field at offset p that a comma ends.\<close>

lemma cstr_prefix:
  assumes "drop p buf = f @ c # rest" "NUL \<notin> set f"
  shows "cstr buf p = f @ (if c = NUL then [] else c # takeWhile (\<lambda>c. c \<noteq> NUL) rest)"
  using assms by (simp add: cstr_def takeWhile_neq_append)

lemma strchr_comma:
  assumes "drop p buf = f @ CHR '','' # rest" "NUL \<notin> set f" "CHR '','' \<notin> set f"
  shows "strchr buf p CHR '','' = Some (p + length f)"
proof -
  have "cstr buf p = f @ CHR '','' # takeWhile (\<lambda>c. c \<noteq> NUL) rest"
    using cstr_prefix [OF assms(1,2)] by simp
  then show ?thesis
    using assms(3) by (simp add: strchr_def takeWhile_neq_append)
qed

lemma strchr_none:
  assumes "drop p buf = f @ NUL # rest" "NUL \<notin> set f" "CHR '','' \<notin> set f"
  shows "strchr buf p CHR '','' = None" "cstr buf p = f"
  using cstr_prefix [OF assms(1,2)] assms(3) by (simp_all add: strchr_def)

lemma field_cut:
  assumes "drop p buf = f @ c # rest" "NUL \<notin> set f"
  shows "cstr (buf[p + length f := NUL]) p = f"
    and "drop (p + length f + 1) (buf[p + length f := NUL]) = rest"
    and "p + length f < length buf"
proof -
  have "cstr (buf[p + length f := NUL]) p = take (p + length f - p) (cstr buf p)"
    by (rule cstr_update_after) simp
  then show "cstr (buf[p + length f := NUL]) p = f"
    using cstr_prefix [OF assms] by simp
  have "drop (length f + 1) (drop p buf) = rest"
    using assms(1) by simp
  then show "drop (p + length f + 1) (buf[p + length f := NUL]) = rest"
    by (simp add: add.commute add.left_commute)
  have "length (drop p buf) = length f + 1 + length rest"
    using assms(1) by simp
  then show "p + length f < length buf"
    by simp
qed

section \<open>One turn of the GPGGA loop\<close>

lemma gga_more:
  assumes "strchr (sentence s) p CHR '','' = Some q" "fc' = fc + 1"
  shows "gga_loop fc p s = gga_loop fc' (q + 1) (gga_field fc' p (s\<lparr>sentence := (sentence s)[q := NUL]\<rparr>))"
  using assms by (subst gga_loop.simps) (simp add: Let_def cut_def)

lemma gga_last:
  assumes "strchr (sentence s) p CHR '','' = None" "fc' = fc + 1"
  shows "gga_loop fc p s = gga_field fc' p s"
  using assms by (subst gga_loop.simps) (simp add: Let_def cut_def)


section \<open>The field counter\<close>

lemma byte_of_nat_Suc: "(of_nat (Suc n) :: byte) = of_nat n + 1"
  by simp

lemma byte_of_nat_eq_7: "n < 256 \<Longrightarrow> ((of_nat n :: byte) = 7) = (n = 7)"
proof -
  assume "n < 256"
  then have "unat (of_nat n :: byte) = n"
    by (simp add: unat_of_nat)
  moreover have "unat (7 :: byte) = 7"
    by simp
  ultimately show ?thesis
    by (metis word_unat_eq_iff)
qed

lemma Fix_sentence_update [simp]: "Fix (s\<lparr>sentence := buf\<rparr>) = Fix s"
  by (simp add: Fix_def)

lemma gga_field_other: "fc \<noteq> 7 \<Longrightarrow> gga_field fc p s = s"
  by (simp add: gga_field_def)

text \<open>After field 7 the loop only cuts the remaining fields.\<close>

lemma gga_after:
  assumes "7 \<le> n" "n + count_list (sentence s) CHR '','' < 255"
  shows "Fix (gga_loop (of_nat n) p s) = Fix s"
  using assms
proof (induction "count_list (sentence s) CHR '',''" arbitrary: n p s rule: less_induct)
  case less
  have next_counter: "(of_nat (Suc n) :: byte) \<noteq> 7"
    using less.prems byte_of_nat_eq_7 [of "Suc n"] by simp
  show ?case
  proof (cases "strchr (sentence s) p CHR '',''")
    case None
    show ?thesis
      by (simp only: gga_last [OF None byte_of_nat_Suc] gga_field_other [OF next_counter])
  next
    case (Some q)
    let ?s1 = "s\<lparr>sentence := (sentence s)[q := NUL]\<rparr>"
    from strchr_hit [OF Some] have "count_list (sentence ?s1) CHR '','' < count_list (sentence s) CHR '',''"
      by (simp add: count_list_update_less)
    moreover from this less.prems have "7 \<le> Suc n" "Suc n + count_list (sentence ?s1) CHR '','' < 255"
      by simp_all
    ultimately have "Fix (gga_loop (of_nat (Suc n)) (q + 1) ?s1) = Fix ?s1"
      by (rule less.hyps)
    then show ?thesis
      by (simp only: gga_more [OF Some byte_of_nat_Suc] gga_field_other [OF next_counter] Fix_sentence_update)
  qed
qed

text \<open>Before field 7 the loop only cuts the fields.\<close>

lemma gga_before:
  assumes "drop p (sentence s) = fields fs @ tail"
    and "\<forall>f \<in> set fs. NUL \<notin> set f \<and> CHR '','' \<notin> set f"
    and "n + length fs < 7"
  shows "\<exists>buf'. gga_loop (of_nat n) p s = gga_loop (of_nat (n + length fs)) (p + length (fields fs)) (s\<lparr>sentence := buf'\<rparr>)
           \<and> drop (p + length (fields fs)) buf' = tail \<and> length buf' = length (sentence s)"
  using assms
proof (induction fs arbitrary: n p s)
  case Nil
  have "gga_loop (of_nat n) p s = gga_loop (of_nat (n + length ([]::string list))) (p + length (fields [])) (s\<lparr>sentence := sentence s\<rparr>)"
    by simp
  with Nil show ?case
    by (intro exI [of _ "sentence s"]) simp
next
  case (Cons f fs)
  let ?q = "p + length f"
  let ?s1 = "s\<lparr>sentence := (sentence s)[?q := NUL]\<rparr>"
  from Cons.prems have shape: "drop p (sentence s) = f @ CHR '','' # (fields fs @ tail)"
    and f: "NUL \<notin> set f" "CHR '','' \<notin> set f"
    by simp_all
  have hit: "strchr (sentence s) p CHR '','' = Some ?q"
    using shape f by (rule strchr_comma)
  have next_counter: "(of_nat (Suc n) :: byte) \<noteq> 7"
    using Cons.prems(3) byte_of_nat_eq_7 [of "Suc n"] by simp
  have step: "gga_loop (of_nat n) p s = gga_loop (of_nat (Suc n)) (?q + 1) ?s1"
    by (simp only: gga_more [OF hit byte_of_nat_Suc] gga_field_other [OF next_counter])
  have "drop (?q + 1) (sentence ?s1) = fields fs @ tail"
    using field_cut(2) [OF shape f(1)] by simp
  moreover have "\<forall>f \<in> set fs. NUL \<notin> set f \<and> CHR '','' \<notin> set f" "Suc n + length fs < 7"
    using Cons.prems by simp_all
  ultimately obtain buf' where
    "gga_loop (of_nat (Suc n)) (?q + 1) ?s1 =
       gga_loop (of_nat (Suc n + length fs)) (?q + 1 + length (fields fs)) (?s1\<lparr>sentence := buf'\<rparr>)"
    "drop (?q + 1 + length (fields fs)) buf' = tail" "length buf' = length (sentence ?s1)"
    using Cons.IH [of "?q + 1" ?s1 "Suc n"] by blast
  then show ?case
    using step by (intro exI [of _ buf']) (simp add: add.assoc)
qed


lemma gga_field_seven:
  assumes "cstr (sentence s) p = f" "f \<noteq> []"
  shows "gga_field 7 p s = s\<lparr>gpsSats := (if gpsValid s then word_of_int (atoi f) else 0)\<rparr>"
  using assms by (auto simp add: gga_field_def strlen_def)

section \<open>The satellite count of a GPGGA sentence\<close>

text \<open>The loop cuts the six fields before field 7, stores the count at field 7, and cuts the
  fields after it.\<close>

lemma gga_seventh_field:
  assumes buf: "sentence s = ''GPGGA,'' @ fields before @ f7 @ c # rest"
    and before: "length before = 6" "\<forall>f \<in> set before. NUL \<notin> set f \<and> CHR '','' \<notin> set f"
    and f7: "f7 \<noteq> []" "NUL \<notin> set f7" "CHR '','' \<notin> set f7"
    and c: "c = CHR '','' \<or> c = NUL"
    and len: "length (sentence s) = NMEAMAXLEN + 1"
  shows "Fix (parseSentence past s) =
           Fix (s\<lparr>gpsSats := (if gpsValid s then word_of_int (atoi f7) else 0)\<rparr>)"
proof -
  let ?tail = "f7 @ c # rest"
  let ?s1 = "s\<lparr>sentence := (sentence s)[5 := NUL]\<rparr>"
  have shape: "drop 0 (sentence s) = ''GPGGA'' @ CHR '','' # (fields before @ ?tail)"
    using buf by simp
  have five: "0 + length ''GPGGA'' = 5" "0 + length ''GPGGA'' + 1 = 6"
    by simp_all
  have type: "strchr (sentence s) 0 CHR '','' = Some 5"
    using strchr_comma [OF shape] unfolding five by simp
  have name: "cstr ((sentence s)[5 := NUL]) 0 = ''GPGGA''"
    using field_cut(1) [OF shape] unfolding five by simp
  have start: "drop 6 (sentence ?s1) = fields before @ ?tail"
    using field_cut(2) [OF shape] unfolding five by simp
  have parse: "parseSentence past s = gga_loop 0 6 ?s1"
    by (simp add: parseSentence_def type cut_def name Let_def)
  from gga_before [OF start before(2), of 0] before(1)
  obtain buf' where skip: "gga_loop 0 6 ?s1 = gga_loop 6 (6 + length (fields before)) (s\<lparr>sentence := buf'\<rparr>)"
    and at7: "drop (6 + length (fields before)) buf' = ?tail"
    and len': "length buf' = length (sentence s)"
    by auto
  let ?p = "6 + length (fields before)"
  let ?s7 = "s\<lparr>sentence := buf'\<rparr>"
  let ?sats = "if gpsValid s then word_of_int (atoi f7) else 0 :: byte"
  have "Fix (gga_loop 6 ?p ?s7) = Fix (s\<lparr>gpsSats := ?sats\<rparr>)"
  proof (cases "c = NUL")
    case True
    have "drop ?p (sentence ?s7) = f7 @ NUL # rest"
      using at7 True by simp
    from strchr_none [OF this f7(2,3)]
    have "strchr (sentence ?s7) ?p CHR '','' = None" "cstr (sentence ?s7) ?p = f7"
      by simp_all
    then have "gga_loop 6 ?p ?s7 = ?s7\<lparr>gpsSats := ?sats\<rparr>"
      by (simp add: gga_last [where fc' = 7] gga_field_seven [OF _ f7(1)])
    then show ?thesis
      by (simp add: Fix_def)
  next
    case False
    with c have comma: "drop ?p (sentence ?s7) = f7 @ CHR '','' # rest"
      using at7 by simp
    let ?q = "?p + length f7"
    let ?s8 = "?s7\<lparr>sentence := (sentence ?s7)[?q := NUL]\<rparr>"
    have hit: "strchr (sentence ?s7) ?p CHR '','' = Some ?q"
      using comma f7(2,3) by (rule strchr_comma)
    have "cstr (sentence ?s8) ?p = f7"
      using field_cut(1) [OF comma f7(2)] by simp
    then have seven: "gga_field 7 ?p ?s8 = ?s8\<lparr>gpsSats := ?sats\<rparr>"
      using gga_field_seven [OF _ f7(1), of ?s8 ?p] by simp
    have "count_list (sentence (?s8\<lparr>gpsSats := ?sats\<rparr>)) CHR '','' \<le> length buf'"
      using count_le_length [of "buf'[?q := NUL]" "CHR '',''"] by simp
    then have "7 + count_list (sentence (?s8\<lparr>gpsSats := ?sats\<rparr>)) CHR '','' < 255"
      using len len' by (simp add: NMEAMAXLEN_def)
    from gga_after [OF _ this, of "?q + 1"]
    have "Fix (gga_loop 7 (?q + 1) (?s8\<lparr>gpsSats := ?sats\<rparr>)) = Fix (?s8\<lparr>gpsSats := ?sats\<rparr>)"
      by simp
    moreover have "gga_loop 6 ?p ?s7 = gga_loop 7 (?q + 1) (?s8\<lparr>gpsSats := ?sats\<rparr>)"
      using gga_more [OF hit, of 7 6] seven by simp
    ultimately show ?thesis
      by (simp add: Fix_def)
  qed
  then show ?thesis
    using parse skip by simp
qed

text \<open>
  Claim C9, as amended. The sentence buffer holds an accepted GPGGA payload: the identifier, six
  fields of any content (empty ones included), then a non-empty field 7 that a comma or the end of
  the payload closes. Then parseSentence changes nothing of the Fix but the satellite count. With
  the validity flag of the last GPRMC parse set, the count is the decimal integer parse of field 7
  reduced modulo 256, because gpsSats is a byte; with the flag clear it is 0, whatever field 7
  holds. The parse is atoi, whose result is defined in C only inside the range of int.
\<close>

theorem gga_satellites:
  assumes buf: "sentence s = ''GPGGA,'' @ fields before @ f7 @ c # rest"
    and before: "length before = 6" "\<forall>f \<in> set before. NUL \<notin> set f \<and> CHR '','' \<notin> set f"
    and f7: "f7 \<noteq> []" "NUL \<notin> set f7" "CHR '','' \<notin> set f7"
    and c: "c = CHR '','' \<or> c = NUL"
    and len: "length (sentence s) = NMEAMAXLEN + 1"
    and int_range: "- (2 ^ 31) \<le> atoi f7" "atoi f7 < 2 ^ 31"
  shows "Fix (parseSentence past s) =
           Fix (s\<lparr>gpsSats := (if gpsValid s then word_of_int (atoi f7) else 0)\<rparr>)"
  using buf before f7 c len by (rule gga_seventh_field)

text \<open>The GPGGA example of the specification: field 7 is 08, the count becomes 8 with the
  flag set and 0 with the flag clear.\<close>

theorem gga_satellites_witness:
  "Fix (parseSentence (\<lambda>_. NUL)
     (power_on\<lparr>sentence := ''GPGGA,123519,4807.038,N,01131.000,E,1,08,0.9,545.4,M,46.9,M,,'' @ NUL # replicate 18 NUL,
               gpsValid := True\<rparr>)) =
     Fix (power_on\<lparr>gpsValid := True, gpsSats := 8\<rparr>)
   \<and> Fix (parseSentence (\<lambda>_. NUL)
     (power_on\<lparr>sentence := ''GPGGA,123519,4807.038,N,01131.000,E,1,08,0.9,545.4,M,46.9,M,,'' @ NUL # replicate 18 NUL,
               gpsSats := 5\<rparr>)) =
     Fix (power_on\<lparr>gpsSats := 0\<rparr>)"
proof -
  let ?buf = "''GPGGA,123519,4807.038,N,01131.000,E,1,08,0.9,545.4,M,46.9,M,,'' @ NUL # replicate 18 NUL"
  let ?before = "[''123519'', ''4807.038'', ''N'', ''01131.000'', ''E'', ''1'']"
  let ?rest = "''0.9,545.4,M,46.9,M,,'' @ NUL # replicate 18 NUL"
  have shape: "?buf = ''GPGGA,'' @ fields ?before @ ''08'' @ CHR '','' # ?rest"
    by simp
  have fs: "length ?before = 6" "\<forall>f \<in> set ?before. NUL \<notin> set f \<and> CHR '','' \<notin> set f"
    "''08'' \<noteq> []" "NUL \<notin> set ''08''" "CHR '','' \<notin> set ''08''" "CHR '','' = CHR '','' \<or> CHR '','' = NUL"
    by simp_all
  have len: "length ?buf = NMEAMAXLEN + 1"
    by (simp add: NMEAMAXLEN_def)
  have eight: "atoi ''08'' = 8"
    by code_simp
  have range: "- (2 ^ 31) \<le> atoi ''08''" "atoi ''08'' < 2 ^ 31"
    by (simp_all add: eight)
  have valid: "gpsValid (power_on\<lparr>sentence := ?buf, gpsValid := True\<rparr>)"
    "\<not> gpsValid (power_on\<lparr>sentence := ?buf, gpsSats := 5\<rparr>)"
    by (simp_all add: power_on_def)
  from gga_satellites [of "power_on\<lparr>sentence := ?buf, gpsValid := True\<rparr>" ?before "''08''" "CHR '',''" ?rest "\<lambda>_. NUL",
      OF _ fs _ range]
    gga_satellites [of "power_on\<lparr>sentence := ?buf, gpsSats := 5\<rparr>" ?before "''08''" "CHR '',''" ?rest "\<lambda>_. NUL",
      OF _ fs _ range]
    shape len valid
  show ?thesis
    by (simp add: eight Fix_def)
qed

text \<open>Field 7 holding 300 parses to 300, and the count stored is 44.\<close>

theorem gga_satellites_counterexample:
  "gpsSats (parseSentence (\<lambda>_. NUL)
     (power_on\<lparr>sentence := ''GPGGA,,,,,,,300'' @ NUL # replicate 64 NUL, gpsValid := True\<rparr>)) = 44
   \<and> atoi ''300'' = 300"
proof -
  let ?buf = "''GPGGA,,,,,,,300'' @ NUL # replicate 64 NUL"
  let ?before = "[[], [], [], [], [], []] :: string list"
  have shape: "?buf = ''GPGGA,'' @ fields ?before @ ''300'' @ NUL # replicate 64 NUL"
    by (simp add: numeral_eq_Suc)
  have fs: "length ?before = 6" "\<forall>f \<in> set ?before. NUL \<notin> set f \<and> CHR '','' \<notin> set f"
    "''300'' \<noteq> []" "NUL \<notin> set ''300''" "CHR '','' \<notin> set ''300''" "NUL = CHR '','' \<or> NUL = NUL"
    by (simp_all add: numeral_eq_Suc)
  have len: "length ?buf = NMEAMAXLEN + 1"
    by (simp add: NMEAMAXLEN_def)
  have parse: "atoi ''300'' = 300"
    by code_simp
  have byte: "(300 :: byte) = 44"
    by (simp add: word_eq_iff_unsigned [where ?'a = int])
  from gga_seventh_field [of "power_on\<lparr>sentence := ?buf, gpsValid := True\<rparr>" ?before "''300''" NUL "replicate 64 NUL" "\<lambda>_. NUL",
      OF _ fs] shape len
  have "Fix (parseSentence (\<lambda>_. NUL) (power_on\<lparr>sentence := ?buf, gpsValid := True\<rparr>)) =
        Fix (power_on\<lparr>sentence := ?buf, gpsValid := True, gpsSats := 44\<rparr>)"
    by (simp add: parse byte)
  then show ?thesis
    by (simp add: Fix_def parse)
qed

section \<open>One turn of the GPRMC loop\<close>

lemma rmc_more:
  assumes "strchr (sentence s) p CHR '','' = Some q" "fc' = fc + 1"
    and "cstr ((sentence s)[q := NUL]) p \<noteq> []"
  shows "rmc_loop past fc p s = rmc_loop past fc' (q + 1) (rmc_field past fc' p (s\<lparr>sentence := (sentence s)[q := NUL]\<rparr>))"
  using assms by (subst rmc_loop.simps) (simp add: Let_def cut_def strlen_def)

lemma rmc_last:
  assumes "strchr (sentence s) p CHR '','' = None" "fc' = fc + 1"
  shows "rmc_loop past fc p s = (if cstr (sentence s) p \<noteq> [] then rmc_field past fc' p s else s)"
  using assms by (subst rmc_loop.simps) (simp add: Let_def cut_def strlen_def)

text \<open>At an empty field the loop cuts its comma, stays there, and ends on the next turn.\<close>

lemma rmc_empty_field:
  assumes "drop p (sentence s) = CHR '','' # rest"
  shows "rmc_loop past fc p s = s\<lparr>sentence := (sentence s)[p := NUL]\<rparr>"
proof -
  let ?s1 = "s\<lparr>sentence := (sentence s)[p := NUL]\<rparr>"
  have shape: "drop p (sentence s) = [] @ CHR '','' # rest"
    using assms by simp
  have hit: "strchr (sentence s) p CHR '','' = Some p"
    using strchr_comma [OF shape] by simp
  have empty: "cstr ((sentence s)[p := NUL]) p = []"
    using field_cut(1) [OF shape] by simp
  have turn: "rmc_loop past fc p s = rmc_loop past (fc + 1) p ?s1"
    using hit empty by (subst rmc_loop.simps) (simp add: Let_def cut_def strlen_def)
  have none: "strchr (sentence ?s1) p CHR '','' = None"
    using empty by (simp add: strchr_def)
  have "rmc_loop past (fc + 1) p ?s1 = ?s1"
    using rmc_last [OF none refl, of past] empty by simp
  with turn show ?thesis
    by simp
qed

section \<open>What a field of GPRMC can change\<close>

lemma kept_refl: "kept A s s"
  by (simp add: kept_def)

lemma kept_sentence: "kept A s (s\<lparr>sentence := buf\<rparr>)"
  by (simp add: kept_def)

lemma kept_trans:
  assumes "kept A s s1" "kept B s1 s2" "A \<subseteq> C" "B \<subseteq> C"
  shows "kept C s s2"
proof -
  have "\<And>i. i \<notin> C \<Longrightarrow> i \<notin> A \<and> i \<notin> B"
    using assms(3,4) by auto
  then show ?thesis
    using assms(1,2) unfolding kept_def by simp
qed

lemma rmc_field_frame:
  "gpsSats (rmc_field past fc p s) = gpsSats s"
  "fc \<noteq> 1 \<Longrightarrow> gpsTimeH (rmc_field past fc p s) = gpsTimeH s"
  "fc \<noteq> 1 \<Longrightarrow> gpsTimeM (rmc_field past fc p s) = gpsTimeM s"
  "fc \<noteq> 1 \<Longrightarrow> gpsTimeS (rmc_field past fc p s) = gpsTimeS s"
  "fc \<noteq> 2 \<Longrightarrow> gpsValid (rmc_field past fc p s) = gpsValid s"
  "fc \<noteq> 3 \<Longrightarrow> fc \<noteq> 4 \<Longrightarrow> gpsLatD (rmc_field past fc p s) = gpsLatD s"
  "fc \<noteq> 5 \<Longrightarrow> fc \<noteq> 6 \<Longrightarrow> gpsLongD (rmc_field past fc p s) = gpsLongD s"
  "fc \<noteq> 9 \<Longrightarrow> gpsDateD (rmc_field past fc p s) = gpsDateD s"
  "fc \<noteq> 9 \<Longrightarrow> gpsDateM (rmc_field past fc p s) = gpsDateM s"
  "fc \<noteq> 9 \<Longrightarrow> gpsDateY (rmc_field past fc p s) = gpsDateY s"
  by (simp_all add: rmc_field_def Let_def)

lemma unat_neq: "unat (fc :: byte) \<noteq> unat k \<Longrightarrow> fc \<noteq> k"
  by auto

lemma kept_rmc_field: "kept {unat fc} s (rmc_field past fc p s)"
proof -
  have "unat fc \<noteq> 1 \<Longrightarrow> fc \<noteq> 1" "unat fc \<noteq> 2 \<Longrightarrow> fc \<noteq> 2" "unat fc \<noteq> 3 \<Longrightarrow> fc \<noteq> 3"
    "unat fc \<noteq> 4 \<Longrightarrow> fc \<noteq> 4" "unat fc \<noteq> 5 \<Longrightarrow> fc \<noteq> 5" "unat fc \<noteq> 6 \<Longrightarrow> fc \<noteq> 6"
    "unat fc \<noteq> 9 \<Longrightarrow> fc \<noteq> 9"
    by auto
  then show ?thesis
    unfolding kept_def by (simp add: rmc_field_frame)
qed

lemma rmc_prefix:
  assumes "drop p (sentence s) = fields fs @ CHR '','' # rest"
    and "\<forall>f \<in> set fs. f \<noteq> [] \<and> NUL \<notin> set f \<and> CHR '','' \<notin> set f"
    and "n + length fs < 256"
  shows "kept {n + 1 .. n + length fs} s (rmc_loop past (of_nat n) p s)
         \<and> drop (p + length (fields fs) + 1) (sentence (rmc_loop past (of_nat n) p s)) = rest"
  using assms
proof (induction fs arbitrary: n p s)
  case Nil
  then have "drop p (sentence s) = CHR '','' # rest"
    by simp
  then have stop: "rmc_loop past (of_nat n) p s = s\<lparr>sentence := (sentence s)[p := NUL]\<rparr>"
    by (rule rmc_empty_field)
  have "drop (p + 1) ((sentence s)[p := NUL]) = rest"
    using field_cut(2) [of p "sentence s" "[]" "CHR '',''" rest] Nil.prems(1) by simp
  then show ?case
    by (simp add: stop kept_sentence)
next
  case (Cons f fs)
  let ?q = "p + length f"
  let ?s1 = "s\<lparr>sentence := (sentence s)[?q := NUL]\<rparr>"
  let ?s2 = "rmc_field past (of_nat (Suc n)) p ?s1"
  from Cons.prems have shape: "drop p (sentence s) = f @ CHR '','' # (fields fs @ CHR '','' # rest)"
    and f: "f \<noteq> []" "NUL \<notin> set f" "CHR '','' \<notin> set f"
    by simp_all
  have hit: "strchr (sentence s) p CHR '','' = Some ?q"
    using shape f(2,3) by (rule strchr_comma)
  have field: "cstr ((sentence s)[?q := NUL]) p \<noteq> []"
    using field_cut(1) [OF shape f(2)] f(1) by simp
  have step: "rmc_loop past (of_nat n) p s = rmc_loop past (of_nat (Suc n)) (?q + 1) ?s2"
    using hit byte_of_nat_Suc field by (rule rmc_more)
  have counter: "unat (of_nat (Suc n) :: byte) = Suc n"
    using Cons.prems(3) unat_of_nat [of "Suc n", where 'a = 8] by (simp del: of_nat_Suc)
  have "kept {unat (of_nat (Suc n) :: byte)} ?s1 ?s2"
    by (rule kept_rmc_field)
  then have "kept {Suc n} ?s1 ?s2"
    by (simp only: counter)
  with kept_sentence [of "{}"] have first: "kept {Suc n} s ?s2"
    by (rule kept_trans) simp_all
  have "drop (?q + 1) (sentence ?s2) = fields fs @ CHR '','' # rest"
    using field_cut(2) [OF shape f(2)] by simp
  moreover have "\<forall>f \<in> set fs. f \<noteq> [] \<and> NUL \<notin> set f \<and> CHR '','' \<notin> set f" "Suc n + length fs < 256"
    using Cons.prems by simp_all
  ultimately have IH: "kept {Suc n + 1 .. Suc n + length fs} ?s2 (rmc_loop past (of_nat (Suc n)) (?q + 1) ?s2)"
      "drop (?q + 1 + length (fields fs) + 1) (sentence (rmc_loop past (of_nat (Suc n)) (?q + 1) ?s2)) = rest"
    using Cons.IH [of "?q + 1" ?s2 "Suc n"] by blast+
  have "kept {n + 1 .. n + length (f # fs)} s (rmc_loop past (of_nat (Suc n)) (?q + 1) ?s2)"
    using first IH(1) by (rule kept_trans) auto
  moreover have "?q + 1 + length (fields fs) + 1 = p + length (fields (f # fs)) + 1"
    by simp
  ultimately show ?case
    using IH(2) by (simp only: step)
qed


lemma length_fields: "length fs \<le> length (fields fs)"
  by (induction fs) simp_all

text \<open>
  Claim C10. The sentence buffer holds an accepted GPRMC payload in which the fields
  \<open>fs\<close> are not empty and the field after them is: the first empty field has position
  \<open>length fs + 1\<close>. Then parseSentence parses the fields 1 to \<open>length fs\<close> only. Every
  output read from a field of a later position keeps its value, whatever \<open>rest\<close>, the text
  after the empty field, holds; and that text is still in the buffer as it was, no comma of it
  replaced, since the scan has not gone beyond the empty field.
\<close>

theorem rmc_scan_stops:
  assumes buf: "sentence s = ''GPRMC,'' @ fields fs @ CHR '','' # rest"
    and fs: "\<forall>f \<in> set fs. f \<noteq> [] \<and> NUL \<notin> set f \<and> CHR '','' \<notin> set f"
    and len: "length (sentence s) = NMEAMAXLEN + 1"
  shows "kept {1 .. length fs} s (parseSentence past s)
         \<and> drop (length (''GPRMC,'' @ fields fs) + 1) (sentence (parseSentence past s)) = rest"
proof -
  let ?s1 = "s\<lparr>sentence := (sentence s)[5 := NUL]\<rparr>"
  have shape: "drop 0 (sentence s) = ''GPRMC'' @ CHR '','' # (fields fs @ CHR '','' # rest)"
    using buf by simp
  have five: "0 + length ''GPRMC'' = 5" "0 + length ''GPRMC'' + 1 = 6"
    by simp_all
  have type: "strchr (sentence s) 0 CHR '','' = Some 5"
    using strchr_comma [OF shape] unfolding five by simp
  have name: "cstr ((sentence s)[5 := NUL]) 0 = ''GPRMC''"
    using field_cut(1) [OF shape] unfolding five by simp
  have start: "drop 6 (sentence ?s1) = fields fs @ CHR '','' # rest"
    using field_cut(2) [OF shape] unfolding five by simp
  have parse: "parseSentence past s = rmc_loop past 0 6 ?s1"
    by (simp add: parseSentence_def type cut_def name Let_def)
  have "length (sentence s) = 6 + length (fields fs) + 1 + length rest"
    by (simp add: buf)
  with len length_fields [of fs] have count: "0 + length fs < 256"
    by (simp add: NMEAMAXLEN_def)
  from rmc_prefix [OF start fs count, of past]
  have loop: "kept {1 .. length fs} ?s1 (rmc_loop past 0 6 ?s1)"
    and tail: "drop (6 + length (fields fs) + 1) (sentence (rmc_loop past 0 6 ?s1)) = rest"
    by simp_all
  from kept_sentence [of "{}"] loop have "kept {1 .. length fs} s (rmc_loop past 0 6 ?s1)"
    by (rule kept_trans) simp_all
  moreover have "length (''GPRMC,'' @ fields fs) + 1 = 6 + length (fields fs) + 1"
    by simp
  ultimately show ?thesis
    using tail by (simp only: parse simp_thms)
qed

text \<open>The GPRMC example of the specification: field 7 is empty, the date of field 9 is not
  read.\<close>

theorem rmc_scan_stops_witness:
  "(let s = power_on\<lparr>sentence := ''GPRMC,123519,A,4807.038,N,01131.000,E,,,230394,,,A'' @ NUL # replicate 29 NUL,
                     gpsDateD := 22, gpsDateM := 3, gpsDateY := 94, gpsSats := 8\<rparr>;
        s' = parseSentence (\<lambda>_. NUL) s
    in (gpsDateD s', gpsDateM s', gpsDateY s') = (22, 3, 94) \<and> gpsSats s' = 8
       \<and> drop 39 (sentence s') = '',230394,,,A'' @ NUL # replicate 29 NUL)"
proof -
  let ?buf = "''GPRMC,123519,A,4807.038,N,01131.000,E,,,230394,,,A'' @ NUL # replicate 29 NUL"
  let ?fs = "[''123519'', ''A'', ''4807.038'', ''N'', ''01131.000'', ''E'']"
  let ?rest = "'',230394,,,A'' @ NUL # replicate 29 NUL"
  let ?s = "power_on\<lparr>sentence := ?buf, gpsDateD := 22, gpsDateM := 3, gpsDateY := 94, gpsSats := 8\<rparr>"
  have shape: "sentence ?s = ''GPRMC,'' @ fields ?fs @ CHR '','' # ?rest"
    by simp
  have fs: "\<forall>f \<in> set ?fs. f \<noteq> [] \<and> NUL \<notin> set f \<and> CHR '','' \<notin> set f"
    by simp
  have len: "length (sentence ?s) = NMEAMAXLEN + 1"
    by (simp add: NMEAMAXLEN_def)
  have nine: "(9::nat) \<notin> {1 .. length ?fs}" "length (''GPRMC,'' @ fields ?fs) + 1 = 39"
    by simp_all
  have "kept {1 .. length ?fs} ?s (parseSentence (\<lambda>_. NUL) ?s)
        \<and> drop 39 (sentence (parseSentence (\<lambda>_. NUL) ?s)) = ?rest"
    using rmc_scan_stops [OF shape fs len, of "\<lambda>_. NUL"] unfolding nine(2) .
  with nine(1) show ?thesis
    unfolding kept_def Let_def by simp
qed

lemma drain_frame:
  "drain h s =
     (if bufferTail s \<noteq> h then
        (case frame (ring_read s) (ring_advance s) of
           (s2, True) \<Rightarrow> Some s2
         | (s2, False) \<Rightarrow> drain h s2)
      else Some s)"
  by (subst drain.simps) (simp add: frame_def Let_def)

lemma frame_ring [simp]:
  "gpsDataBuffer (fst (frame c s)) = gpsDataBuffer s"
  "bufferHead (fst (frame c s)) = bufferHead s"
  "bufferTail (fst (frame c s)) = bufferTail s"
  "bufferOverflow (fst (frame c s)) = bufferOverflow s"
  by (simp_all add: frame_def)

lemma validate_ring [simp]:
  "gpsDataBuffer (snd (validate now s)) = gpsDataBuffer s"
  "bufferHead (snd (validate now s)) = bufferHead s"
  "bufferTail (snd (validate now s)) = bufferTail s"
  "bufferOverflow (snd (validate now s)) = bufferOverflow s"
  by (simp_all add: validate_def Let_def split: option.splits prod.splits)

lemma ring_advance_ring [simp]:
  "gpsDataBuffer (ring_advance s) = gpsDataBuffer s"
  "bufferHead (ring_advance s) = bufferHead s"
  "bufferTail (ring_advance s) = (bufferTail s + 1) mod GPSBUFR1"
  "bufferOverflow (ring_advance s) = bufferOverflow s"
  by (simp_all add: ring_advance_def)


section \<open>Indices modulo the size of the ring\<close>

lemma mod_neq:
  fixes i j :: nat
  assumes "i < j" "j < i + n"
  shows "i mod n \<noteq> j mod n"
proof
  assume "i mod n = j mod n"
  then have "j mod n = i mod n"
    by simp
  then have "n dvd j - i"
    using assms(1) mod_eq_dvd_iff_nat [of i j n] by simp
  moreover have "0 < j - i" "j - i < n"
    using assms by simp_all
  ultimately show False
    using nat_dvd_not_less by blast
qed

lemma consumed_globals [simp]: "consumed (sys\<lparr>globals := g\<rparr>) = consumed sys"
  by (simp add: consumed_def)

section \<open>The ISR keeps every byte that finds room\<close>

lemma ring_inv_isr_byte:
  assumes inv: "ring_inv xs sys"
    and room: "(bufferHead (globals sys) + 1) mod GPSBUFR1 \<noteq> bufferTail (globals sys)"
  shows "ring_inv (xs @ [c]) (sys\<lparr>globals := isr_byte c (globals sys)\<rparr>)"
proof -
  let ?g = "globals sys"
  let ?C = "consumed sys"
  let ?P = "length xs"
  let ?g' = "?g\<lparr>gpsDataBuffer := (gpsDataBuffer ?g)[bufferHead ?g := c],
                 bufferHead := (bufferHead ?g + 1) mod GPSBUFR1\<rparr>"
  have pos: "0 < GPSBUFR1"
    by (simp add: GPSBUFR1_def)
  from inv have len: "length (gpsDataBuffer ?g) = GPSBUFR1"
    and head: "bufferHead ?g = ?P mod GPSBUFR1"
    and tail: "bufferTail ?g = ?C mod GPSBUFR1"
    and seen: "length (observed sys) \<le> ?P" "observed sys = take (length (observed sys)) xs"
    and bound: "?P < ?C + GPSBUFR1"
    and cells: "\<And>i. ?C \<le> i \<Longrightarrow> i < ?P \<Longrightarrow> gpsDataBuffer ?g ! (i mod GPSBUFR1) = xs ! i"
    by (simp_all add: ring_inv_def)
  have step: "isr_byte c ?g = ?g'"
    using room by (simp add: isr_byte_def Let_def)
  have head': "(bufferHead ?g + 1) mod GPSBUFR1 = Suc ?P mod GPSBUFR1"
    by (simp add: head mod_Suc_eq)
  have "Suc ?P \<noteq> ?C + GPSBUFR1"
  proof
    assume "Suc ?P = ?C + GPSBUFR1"
    then have "Suc ?P mod GPSBUFR1 = ?C mod GPSBUFR1"
      by simp
    with room head' tail show False
      by simp
  qed
  with bound have bound': "Suc ?P < ?C + GPSBUFR1"
    by simp
  have cells': "gpsDataBuffer ?g' ! (i mod GPSBUFR1) = (xs @ [c]) ! i" if "?C \<le> i" "i < Suc ?P" for i
  proof (cases "i = ?P")
    case True
    then show ?thesis
      using len pos by (simp add: head)
  next
    case False
    with that have less: "i < ?P"
      by simp
    then have "i mod GPSBUFR1 \<noteq> ?P mod GPSBUFR1"
      using that(1) bound by (intro mod_neq) simp_all
    then show ?thesis
      using cells [OF that(1) less] less by (simp add: head nth_append)
  qed
  have copy: "\<exists>H. bufferHeadCopy sys = H mod GPSBUFR1 \<and> ?C \<le> H \<and> H \<le> Suc ?P" if "pc sys = AtTest"
    using inv that unfolding ring_inv_def by (meson le_Suc_eq)
  have copy': "\<exists>H. bufferHeadCopy sys = H mod GPSBUFR1 \<and> ?C < H \<and> H \<le> Suc ?P"
    if "pc sys = AtRead \<or> pc sys = AtAdvance"
    using inv that unfolding ring_inv_def by (meson le_Suc_eq)
  have nonempty: "pc sys = AtAdvance \<longrightarrow> observed sys \<noteq> []"
    using inv by (simp add: ring_inv_def)
  show ?thesis
    unfolding step ring_inv_def
    using len tail seen bound' cells' copy copy' nonempty head' by simp
qed

lemma overflow_isr_byte: "bufferOverflow s \<Longrightarrow> bufferOverflow (isr_byte c s)"
  by (simp add: isr_byte_def Let_def)

text \<open>A byte that finds room is stored, and the flag stays clear.\<close>

lemma isr_byte_room:
  assumes inv: "ring_inv xs sys"
    and room: "Suc (length xs) < consumed sys + GPSBUFR1"
  shows "(bufferHead (globals sys) + 1) mod GPSBUFR1 \<noteq> bufferTail (globals sys)"
proof -
  from inv have head: "bufferHead (globals sys) = length xs mod GPSBUFR1"
    and tail: "bufferTail (globals sys) = consumed sys mod GPSBUFR1"
    and seen: "length (observed sys) \<le> length xs"
    by (simp_all add: ring_inv_def)
  have "consumed sys \<le> length (observed sys)"
    by (simp add: consumed_def)
  with seen have "consumed sys < Suc (length xs)"
    by simp
  then have "consumed sys mod GPSBUFR1 \<noteq> Suc (length xs) mod GPSBUFR1"
    using room by (rule mod_neq)
  then show ?thesis
    by (simp add: head tail mod_Suc_eq)
qed

lemma isr_room:
  assumes "ring_inv xs sys" "\<not> bufferOverflow (globals sys)"
    and "length xs + length available < consumed sys + GPSBUFR1"
  shows "ring_inv (xs @ available) (sys\<lparr>globals := gpsDataReadISR available (globals sys)\<rparr>)
         \<and> \<not> bufferOverflow (gpsDataReadISR available (globals sys))"
  using assms
proof (induction available arbitrary: xs sys)
  case Nil
  then show ?case
    by (simp add: gpsDataReadISR_def)
next
  case (Cons c cs)
  let ?sys1 = "sys\<lparr>globals := isr_byte c (globals sys)\<rparr>"
  from Cons.prems(3) have one: "Suc (length xs) < consumed sys + GPSBUFR1"
    by simp
  have free: "(bufferHead (globals sys) + 1) mod GPSBUFR1 \<noteq> bufferTail (globals sys)"
    using Cons.prems(1) one by (rule isr_byte_room)
  have inv1: "ring_inv (xs @ [c]) ?sys1"
    using Cons.prems(1) free by (rule ring_inv_isr_byte)
  have flag1: "\<not> bufferOverflow (globals ?sys1)"
    using Cons.prems(2) free by (simp add: isr_byte_def Let_def)
  have "length (xs @ [c]) + length cs < consumed ?sys1 + GPSBUFR1"
    using Cons.prems(3) by simp
  with inv1 flag1
  have "ring_inv ((xs @ [c]) @ cs) (?sys1\<lparr>globals := gpsDataReadISR cs (globals ?sys1)\<rparr>)
        \<and> \<not> bufferOverflow (gpsDataReadISR cs (globals ?sys1))"
    by (rule Cons.IH)
  then show ?case
    by (simp add: gpsDataReadISR_def)
qed

lemma overflow_isr: "bufferOverflow s \<Longrightarrow> bufferOverflow (gpsDataReadISR available s)"
proof (induction available arbitrary: s)
  case Nil
  then show ?case
    by (simp add: gpsDataReadISR_def)
next
  case (Cons c cs)
  from Cons.prems have "bufferOverflow (isr_byte c s)"
    by (rule overflow_isr_byte)
  then have "bufferOverflow (gpsDataReadISR cs (isr_byte c s))"
    by (rule Cons.IH)
  then show ?case
    by (simp add: gpsDataReadISR_def)
qed

text \<open>And it sets the flag when a byte finds none.\<close>

lemma isr_no_room:
  assumes "ring_inv xs sys"
    and "consumed sys + GPSBUFR1 \<le> length xs + length available"
  shows "bufferOverflow (gpsDataReadISR available (globals sys))"
  using assms
proof (induction available arbitrary: xs sys)
  case Nil
  then have "length xs < consumed sys + GPSBUFR1"
    by (simp add: ring_inv_def)
  with Nil.prems(2) show ?case
    by simp
next
  case (Cons c cs)
  let ?sys1 = "sys\<lparr>globals := isr_byte c (globals sys)\<rparr>"
  from Cons.prems(1) have head: "bufferHead (globals sys) = length xs mod GPSBUFR1"
    and tail: "bufferTail (globals sys) = consumed sys mod GPSBUFR1"
    and bound: "length xs < consumed sys + GPSBUFR1"
    by (simp_all add: ring_inv_def)
  have split: "gpsDataReadISR (c # cs) (globals sys) = gpsDataReadISR cs (isr_byte c (globals sys))"
    by (simp add: gpsDataReadISR_def)
  show ?case
  proof (cases "Suc (length xs) < consumed sys + GPSBUFR1")
    case True
    with Cons.prems(1) have "(bufferHead (globals sys) + 1) mod GPSBUFR1 \<noteq> bufferTail (globals sys)"
      by (rule isr_byte_room)
    with Cons.prems(1) have "ring_inv (xs @ [c]) ?sys1"
      by (rule ring_inv_isr_byte)
    moreover have "consumed ?sys1 + GPSBUFR1 \<le> length (xs @ [c]) + length cs"
      using Cons.prems(2) by simp
    ultimately have "bufferOverflow (gpsDataReadISR cs (globals ?sys1))"
      by (rule Cons.IH)
    then show ?thesis
      by (simp add: split)
  next
    case False
    with bound have "Suc (length xs) = consumed sys + GPSBUFR1"
      by simp
    then have "Suc (length xs) mod GPSBUFR1 = consumed sys mod GPSBUFR1"
      by simp
    then have "(bufferHead (globals sys) + 1) mod GPSBUFR1 = bufferTail (globals sys)"
      by (simp add: head tail mod_Suc_eq)
    then have "bufferOverflow (isr_byte c (globals sys))"
      by (simp add: isr_byte_def Let_def)
    then show ?thesis
      unfolding split by (rule overflow_isr)
  qed
qed

section \<open>The consumer keeps the invariant\<close>

lemma overflow_main_step:
  "bufferOverflow (globals (main_step now sys)) = bufferOverflow (globals sys)"
  by (cases "frame (character sys) (ring_advance (globals sys))")
     (use frame_ring(4) [of "character sys" "ring_advance (globals sys)"] in
       \<open>simp add: main_step_def split: pc.splits\<close>)

lemma ring_inv_main_step:
  assumes inv: "ring_inv xs sys"
  shows "ring_inv xs (main_step now sys)"
proof -
  let ?g = "globals sys"
  let ?C = "consumed sys"
  let ?P = "length xs"
  from inv have len: "length (gpsDataBuffer ?g) = GPSBUFR1"
    and head: "bufferHead ?g = ?P mod GPSBUFR1"
    and tail: "bufferTail ?g = ?C mod GPSBUFR1"
    and seen: "length (observed sys) \<le> ?P" "observed sys = take (length (observed sys)) xs"
    and bound: "?P < ?C + GPSBUFR1"
    and cells: "\<And>i. ?C \<le> i \<Longrightarrow> i < ?P \<Longrightarrow> gpsDataBuffer ?g ! (i mod GPSBUFR1) = xs ! i"
    by (simp_all add: ring_inv_def)
  show ?thesis
  proof (cases "pc sys")
    case AtSnapshot
    then have "main_step now sys = sys\<lparr>bufferHeadCopy := bufferHead ?g, pc := AtTest\<rparr>"
      by (simp add: main_step_def)
    moreover have "consumed (sys\<lparr>bufferHeadCopy := bufferHead ?g, pc := AtTest\<rparr>) = ?C" "?C \<le> ?P"
      using AtSnapshot seen(1) by (simp_all add: consumed_def)
    ultimately show ?thesis
      using inv head unfolding ring_inv_def by auto
  next
    case AtTest
    with inv obtain H where H: "bufferHeadCopy sys = H mod GPSBUFR1" "?C \<le> H" "H \<le> ?P"
      by (auto simp: ring_inv_def)
    show ?thesis
    proof (cases "bufferTail ?g \<noteq> bufferHeadCopy sys")
      case True
      then have "?C \<noteq> H"
        using tail H(1) by auto
      with H have more: "\<exists>H. bufferHeadCopy sys = H mod GPSBUFR1 \<and> ?C < H \<and> H \<le> ?P"
        by (intro exI [of _ H]) simp
      have "main_step now sys = sys\<lparr>pc := AtRead\<rparr>"
        using AtTest True by (simp add: main_step_def)
      moreover have "consumed (sys\<lparr>pc := AtRead\<rparr>) = ?C"
        using AtTest by (simp add: consumed_def)
      ultimately show ?thesis
        using inv more unfolding ring_inv_def by simp
    next
      case False
      then have "main_step now sys = sys\<lparr>pc := AtValidate\<rparr>"
        using AtTest by (simp add: main_step_def)
      moreover have "consumed (sys\<lparr>pc := AtValidate\<rparr>) = ?C"
        using AtTest by (simp add: consumed_def)
      ultimately show ?thesis
        using inv unfolding ring_inv_def by simp
    qed
  next
    case AtRead
    with inv obtain H where H: "bufferHeadCopy sys = H mod GPSBUFR1" "?C < H" "H \<le> ?P"
      by (auto simp: ring_inv_def)
    let ?c = "ring_read ?g"
    let ?sys' = "sys\<lparr>character := ?c, observed := observed sys @ [?c], pc := AtAdvance\<rparr>"
    have C: "?C = length (observed sys)"
      using AtRead by (simp add: consumed_def)
    with H have less: "length (observed sys) < ?P"
      by simp
    have "?c = gpsDataBuffer ?g ! (?C mod GPSBUFR1)"
      by (simp add: ring_read_def tail)
    also have "\<dots> = xs ! ?C"
      using less C by (intro cells) simp_all
    finally have c: "?c = xs ! length (observed sys)"
      by (simp add: C)
    have seen': "observed sys @ [?c] = take (Suc (length (observed sys))) xs"
      using seen(2) less by (simp add: c take_Suc_conv_app_nth)
    have step: "main_step now sys = ?sys'"
      using AtRead by (simp add: main_step_def)
    have C': "consumed ?sys' = ?C"
      using AtRead by (simp add: consumed_def)
    have more: "\<exists>H. bufferHeadCopy sys = H mod GPSBUFR1 \<and> ?C < H \<and> H \<le> ?P"
      using H by blast
    have some: "xs \<noteq> []"
      using less by auto
    show ?thesis
      unfolding step ring_inv_def C'
      using len head tail less bound seen' cells more some by simp
  next
    case AtAdvance
    with inv obtain H where H: "bufferHeadCopy sys = H mod GPSBUFR1" "?C < H" "H \<le> ?P"
      and nonempty: "observed sys \<noteq> []"
      by (auto simp: ring_inv_def)
    obtain s2 stop where fr: "frame (character sys) (ring_advance ?g) = (s2, stop)"
      by (cases "frame (character sys) (ring_advance ?g)")
    let ?sys' = "sys\<lparr>globals := s2, pc := (if stop then AtValidate else AtTest)\<rparr>"
    have step: "main_step now sys = ?sys'"
      using AtAdvance fr by (simp add: main_step_def)
    have s2: "gpsDataBuffer s2 = gpsDataBuffer ?g" "bufferHead s2 = bufferHead ?g"
      "bufferTail s2 = (bufferTail ?g + 1) mod GPSBUFR1"
      using frame_ring [of "character sys" "ring_advance ?g"] by (simp_all add: fr)
    have C: "Suc ?C = length (observed sys)"
      using AtAdvance nonempty by (simp add: consumed_def Suc_diff_Suc)
    have "consumed ?sys' = length (observed sys)"
      by (simp add: consumed_def)
    then have C': "consumed ?sys' = Suc ?C"
      by (simp only: C)
    have tail': "bufferTail s2 = Suc ?C mod GPSBUFR1"
      by (simp add: s2 tail mod_Suc_eq)
    have more: "\<exists>H. bufferHeadCopy sys = H mod GPSBUFR1 \<and> Suc ?C \<le> H \<and> H \<le> ?P"
      using H by (intro exI [of _ H]) simp
    show ?thesis
      unfolding step ring_inv_def C'
      using len head tail' seen bound cells more by (simp add: s2(1,2))
  next
    case AtValidate
    let ?sys' = "sys\<lparr>globals := snd (validate now ?g), pc := AtSnapshot\<rparr>"
    have step: "main_step now sys = ?sys'"
      using AtValidate by (simp add: main_step_def)
    have C': "consumed ?sys' = ?C"
      using AtValidate by (simp add: consumed_def)
    show ?thesis
      unfolding step ring_inv_def C'
      using len head tail seen bound cells by simp
  qed
qed

lemma pushes_Cons: "pushes (e # es) = (case e of Tick available \<Rightarrow> available | Main _ \<Rightarrow> []) @ pushes es"
  by (simp add: pushes_def)

lemma ring_inv_start: "ring_inv [] start"
  by (simp add: ring_inv_def start_def power_on_def consumed_def GPSBUFR1_def)

section \<open>The consumer's steps are those of getSentence\<close>

lemma run_replicate_add:
  "run (replicate (m + n) e) sys = run (replicate n e) (run (replicate m e) sys)"
  by (simp add: run_def replicate_add)

lemma main_loop_is_drain:
  assumes "drain h s0 = Some s0'"
  shows "\<exists>n. globals (run (replicate n (Main now)) (sys\<lparr>globals := s0, pc := AtTest, bufferHeadCopy := h\<rparr>)) = s0'
           \<and> pc (run (replicate n (Main now)) (sys\<lparr>globals := s0, pc := AtTest, bufferHeadCopy := h\<rparr>)) = AtValidate"
proof (rule drain.raw_induct
    [where P = "\<lambda>h s s'. \<forall>sys. \<exists>n.
        globals (run (replicate n (Main now)) (sys\<lparr>globals := s, pc := AtTest, bufferHeadCopy := h\<rparr>)) = s'
        \<and> pc (run (replicate n (Main now)) (sys\<lparr>globals := s, pc := AtTest, bufferHeadCopy := h\<rparr>)) = AtValidate",
      OF _ assms, THEN spec], goal_cases)
  case (1 loop h s s')
  show ?case
  proof
    fix sys :: system
    let ?sys = "sys\<lparr>globals := s, pc := AtTest, bufferHeadCopy := h\<rparr>"
    show "\<exists>n. globals (run (replicate n (Main now)) ?sys) = s'
            \<and> pc (run (replicate n (Main now)) ?sys) = AtValidate"
    proof (cases "bufferTail s \<noteq> h")
      case False
      with 1(2) have "s' = s"
        by simp
      with False have "globals (run (replicate 1 (Main now)) ?sys) = s'
          \<and> pc (run (replicate 1 (Main now)) ?sys) = AtValidate"
        by (simp add: run_def step_def main_step_def)
      then show ?thesis
        by blast
    next
      case True
      obtain s2 stop where fr: "frame (ring_read s) (ring_advance s) = (s2, stop)"
        by (cases "frame (ring_read s) (ring_advance s)")
      let ?sys3 = "sys\<lparr>globals := s2, pc := (if stop then AtValidate else AtTest), bufferHeadCopy := h,
                        character := ring_read s, observed := observed sys @ [ring_read s]\<rparr>"
      have three: "run (replicate 3 (Main now)) ?sys = ?sys3"
        using True fr by (simp add: run_def step_def main_step_def numeral_3_eq_3)
      from 1(2) True fr have body: "(if stop then Some s2 else loop h s2) = Some s'"
        by (auto simp: frame_def Let_def split: if_splits)
      show ?thesis
      proof (cases stop)
        case True
        with body three have "globals (run (replicate 3 (Main now)) ?sys) = s'
            \<and> pc (run (replicate 3 (Main now)) ?sys) = AtValidate"
          by simp
        then show ?thesis
          by blast
      next
        case False
        with body have "loop h s2 = Some s'"
          by simp
        from 1(1) [OF this, THEN spec, of ?sys3] obtain n where
          "globals (run (replicate n (Main now)) (?sys3\<lparr>globals := s2, pc := AtTest, bufferHeadCopy := h\<rparr>)) = s'
           \<and> pc (run (replicate n (Main now)) (?sys3\<lparr>globals := s2, pc := AtTest, bufferHeadCopy := h\<rparr>)) = AtValidate"
          by blast
        moreover have "?sys3\<lparr>globals := s2, pc := AtTest, bufferHeadCopy := h\<rparr> = ?sys3"
          using False by simp
        ultimately have "globals (run (replicate (3 + n) (Main now)) ?sys) = s'
            \<and> pc (run (replicate (3 + n) (Main now)) ?sys) = AtValidate"
          by (simp only: run_replicate_add three)
        then show ?thesis
          by blast
      qed
    qed
  qed
qed

lemma main_is_getSentence:
  assumes "getSentence now s = Some (dataValid, s')"
  shows "\<exists>n. globals (run (replicate n (Main now)) (sys\<lparr>globals := s, pc := AtSnapshot\<rparr>)) = s'
           \<and> pc (run (replicate n (Main now)) (sys\<lparr>globals := s, pc := AtSnapshot\<rparr>)) = AtSnapshot"
proof -
  from assms obtain s1 where loop: "drain (bufferHead s) s = Some s1" and s': "s' = snd (validate now s1)"
    by (auto simp: getSentence_def split: option.splits)
  let ?sys = "sys\<lparr>globals := s, pc := AtSnapshot\<rparr>"
  let ?sys1 = "sys\<lparr>globals := s, pc := AtTest, bufferHeadCopy := bufferHead s\<rparr>"
  have first: "run (replicate 1 (Main now)) ?sys = ?sys1"
    by (simp add: run_def step_def main_step_def)
  from main_loop_is_drain [OF loop, of now sys] obtain n where
    n: "globals (run (replicate n (Main now)) ?sys1) = s1" "pc (run (replicate n (Main now)) ?sys1) = AtValidate"
    by blast
  let ?sys2 = "run (replicate n (Main now)) ?sys1"
  have "run (replicate 1 (Main now)) ?sys2 = ?sys2\<lparr>globals := s', pc := AtSnapshot\<rparr>"
    using n by (simp add: run_def step_def main_step_def s')
  then have "run (replicate (1 + n + 1) (Main now)) ?sys = ?sys2\<lparr>globals := s', pc := AtSnapshot\<rparr>"
    by (simp only: run_replicate_add first)
  then have "globals (run (replicate (1 + n + 1) (Main now)) ?sys) = s'
      \<and> pc (run (replicate (1 + n + 1) (Main now)) ?sys) = AtSnapshot"
    by simp
  then show ?thesis
    by blast
qed

section \<open>The consumer alone empties the ring\<close>

lemma rank_bounds: "1 \<le> rank sys" "rank sys \<le> 6"
  by (simp_all add: rank_def split: pc.splits)

lemma observed_main_step:
  "observed (main_step now sys) = observed sys
   \<or> (pc sys = AtRead \<and> pc (main_step now sys) = AtAdvance
       \<and> observed (main_step now sys) = observed sys @ [ring_read (globals sys)])"
  by (cases "frame (character sys) (ring_advance (globals sys))")
     (simp add: main_step_def split: pc.splits)

lemma rank_main_step:
  assumes inv: "ring_inv xs sys" and more: "length (observed sys) < length xs"
    and other: "pc sys \<noteq> AtRead"
  shows "rank (main_step now sys) < rank sys"
proof (cases "pc sys")
  case AtSnapshot
  then have C: "consumed sys = length (observed sys)"
    by (simp add: consumed_def)
  from inv have "bufferHead (globals sys) = length xs mod GPSBUFR1"
    "bufferTail (globals sys) = consumed sys mod GPSBUFR1" "length xs < consumed sys + GPSBUFR1"
    by (simp_all add: ring_inv_def)
  moreover have "consumed sys mod GPSBUFR1 \<noteq> length xs mod GPSBUFR1"
    using more \<open>length xs < consumed sys + GPSBUFR1\<close> unfolding C by (rule mod_neq)
  ultimately show ?thesis
    using AtSnapshot by (simp add: main_step_def rank_def)
next
  case AtTest
  then show ?thesis
    by (simp add: main_step_def rank_def)
next
  case AtRead
  with other show ?thesis
    by simp
next
  case AtAdvance
  then show ?thesis
    by (cases "frame (character sys) (ring_advance (globals sys))")
       (simp add: main_step_def rank_def)
next
  case AtValidate
  then show ?thesis
    by (simp add: main_step_def rank_def)
qed

lemma todo_main_step:
  assumes inv: "ring_inv xs sys" and more: "length (observed sys) < length xs"
  shows "todo xs (main_step now sys) < todo xs sys"
proof (cases "pc sys = AtRead")
  case True
  then have "observed (main_step now sys) = observed sys @ [ring_read (globals sys)]"
    by (simp add: main_step_def)
  then have "length (observed (main_step now sys)) = Suc (length (observed sys))"
    by simp
  then show ?thesis
    using more rank_bounds [of sys] rank_bounds [of "main_step now sys"]
    unfolding todo_def by (simp only: split: if_splits) arith
next
  case False
  with observed_main_step [of now sys] have "observed (main_step now sys) = observed sys"
    by auto
  then show ?thesis
    using more rank_main_step [OF inv more False, of now] rank_bounds [of "main_step now sys"]
    by (simp add: todo_def)
qed

lemma run_Cons: "run (e # es) sys = run es (step e sys)"
  by (simp add: run_def)

lemma run_append: "run (es @ es') sys = run es' (run es sys)"
  by (simp add: run_def)

lemma main_alone:
  assumes "ring_inv xs sys" "todo xs sys \<le> length nows"
  shows "observed (run (map Main nows) sys) = xs"
  using assms
proof (induction nows arbitrary: sys)
  case Nil
  then have "todo xs sys = 0"
    by simp
  moreover from Nil.prems(1) have seen: "length (observed sys) \<le> length xs"
    "observed sys = take (length (observed sys)) xs"
    by (simp_all add: ring_inv_def)
  ultimately have "length (observed sys) = length xs"
    using rank_bounds [of sys] unfolding todo_def by (simp split: if_splits)
  with seen(2) show ?case
    by (simp add: run_def)
next
  case (Cons now nows)
  let ?sys' = "main_step now sys"
  have inv': "ring_inv xs ?sys'"
    using Cons.prems(1) by (rule ring_inv_main_step)
  have "todo xs ?sys' \<le> length nows"
  proof (cases "length (observed sys) = length xs")
    case True
    from inv' have "length (observed ?sys') \<le> length xs"
      by (simp add: ring_inv_def)
    moreover have "length (observed sys) \<le> length (observed ?sys')"
      using observed_main_step [of now sys] by auto
    ultimately show ?thesis
      using True by (simp add: todo_def)
  next
    case False
    moreover from Cons.prems(1) have "length (observed sys) \<le> length xs"
      by (simp add: ring_inv_def)
    ultimately have "length (observed sys) < length xs"
      by simp
    from todo_main_step [OF Cons.prems(1) this, of now] Cons.prems(2) show ?thesis
      by simp
  qed
  with inv' have "observed (run (map Main nows) ?sys') = xs"
    by (rule Cons.IH)
  then show ?case
    by (simp add: run_Cons step_def)
qed

lemma todo_le: "todo xs sys \<le> 7 * (length xs - length (observed sys))"
  using rank_bounds [of sys] unfolding todo_def by (simp only: split: if_splits) arith

text \<open>Along a schedule in which every byte finds room the invariant holds and the flag stays clear.\<close>

lemma room_run:
  assumes "ring_inv xs sys" "\<not> bufferOverflow (globals sys)" "room (length xs) es sys"
  shows "ring_inv (xs @ pushes es) (run es sys) \<and> \<not> bufferOverflow (globals (run es sys))"
  using assms
proof (induction es arbitrary: xs sys)
  case Nil
  then show ?case
    by (simp add: run_def pushes_def)
next
  case (Cons e es)
  show ?case
  proof (cases e)
    case (Tick available)
    with Cons.prems(3) have fits: "length xs + length available < consumed sys + GPSBUFR1"
      and later: "room (length (xs @ available)) es (step e sys)"
      by simp_all
    from isr_room [OF Cons.prems(1,2) fits]
    have "ring_inv (xs @ available) (step e sys)" "\<not> bufferOverflow (globals (step e sys))"
      by (simp_all add: step_def Tick)
    from Cons.IH [OF this later] show ?thesis
      by (simp add: run_Cons pushes_Cons Tick)
  next
    case (Main now)
    with Cons.prems(3) have later: "room (length xs) es (step e sys)"
      by simp
    have "ring_inv xs (step e sys)" "\<not> bufferOverflow (globals (step e sys))"
      using Cons.prems(1,2) by (simp_all add: step_def Main ring_inv_main_step overflow_main_step)
    from Cons.IH [OF this later] show ?thesis
      by (simp add: run_Cons pushes_Cons Main)
  qed
qed

text \<open>
  Claim C7. Take any schedule of ticks of the ISR and statements of the consumer from power-on in
  which every byte finds room in the ring when it arrives, as it does when the ring never becomes
  full. Then no byte is dropped: the overflow flag is clear at the end, and the bytes the consumer
  has read from the ring are an initial segment of all the bytes that have arrived, so far none
  is lost, repeated or out of order. And when the consumer then runs on alone, seven statements
  for each byte not yet read are enough for it to have read exactly the bytes that arrived, each
  one once, in the order of their arrival.
\<close>

theorem ring_fifo:
  assumes room: "room 0 es start"
    and enough: "7 * (length (pushes es) - length (observed (run es start))) \<le> length nows"
  shows "\<not> bufferOverflow (globals (run es start))
         \<and> (\<exists>unread. pushes es = observed (run es start) @ unread)
         \<and> observed (run (es @ map Main nows) start) = pushes es"
proof -
  have "\<not> bufferOverflow (globals start)"
    by (simp add: start_def power_on_def)
  with ring_inv_start room_run [of "[]" start es] room
  have inv: "ring_inv (pushes es) (run es start)" and flag: "\<not> bufferOverflow (globals (run es start))"
    by simp_all
  from inv have "observed (run es start) = take (length (observed (run es start))) (pushes es)"
    by (simp add: ring_inv_def)
  then have "pushes es = observed (run es start) @ drop (length (observed (run es start))) (pushes es)"
    by (metis append_take_drop_id)
  moreover have "todo (pushes es) (run es start) \<le> length nows"
    using todo_le [of "pushes es" "run es start"] enough by simp
  with inv have "observed (run (map Main nows) (run es start)) = pushes es"
    by (rule main_alone)
  ultimately show ?thesis
    using flag by (auto simp: run_append)
qed

text \<open>A schedule in which a tick comes between the read of a byte and the move of the tail.\<close>

theorem ring_fifo_witness:
  "room 0 [Tick ''$GP'', Main 1, Main 1, Main 1, Tick ''RMC'', Main 2] start
   \<and> \<not> bufferOverflow (globals (run [Tick ''$GP'', Main 1, Main 1, Main 1, Tick ''RMC'', Main 2] start))
   \<and> observed (run [Tick ''$GP'', Main 1, Main 1, Main 1, Tick ''RMC'', Main 2] start) = ''$''
   \<and> pushes [Tick ''$GP'', Main 1, Main 1, Main 1, Tick ''RMC'', Main 2] = ''$GPRMC''
   \<and> observed (run ([Tick ''$GP'', Main 1, Main 1, Main 1, Tick ''RMC'', Main 2] @ map Main (replicate 35 3)) start)
       = ''$GPRMC''"
proof -
  let ?es = "[Tick ''$GP'', Main 1, Main 1, Main 1, Tick ''RMC'', Main 2]"
  have fits: "room 0 ?es start"
    by code_simp
  have seen: "observed (run ?es start) = ''$''"
    by code_simp
  have pushed: "pushes ?es = ''$GPRMC''"
    by (simp add: pushes_def)
  have "7 * (length (pushes ?es) - length (observed (run ?es start))) \<le> length (replicate 35 (3 :: 32 word))"
    unfolding seen pushed by simp
  with fits have "\<not> bufferOverflow (globals (run ?es start))
      \<and> observed (run (?es @ map Main (replicate 35 3)) start) = pushes ?es"
    using ring_fifo [of ?es "replicate 35 3"] by blast
  with fits seen pushed show ?thesis
    by (simp only: simp_thms)
qed

end
